theory Spec2Isabelle
  imports Main
begin

section \<open>The static file server of \<open>server.js\<close>\<close>

text \<open>
  The development server answers every request from the directory that holds
  \<open>server.js\<close>. Its request handler is embedded below together with the three
  platform functions it calls: \<open>path.join\<close>, \<open>path.extname\<close> (the POSIX variants of
  the Node.js \<open>path\<close> module, transcribed from the algorithm of Node's \<open>lib/path.js\<close>)
  and \<open>String.prototype.toLowerCase\<close>. A request URL reaches the handler as a string
  of one-byte characters, which is what \<open>char\<close> is.
\<close>

subsection \<open>Strings\<close>

text \<open>
  \<open>toLowerCase\<close> on one-byte characters: the letters \<open>A\<close> to \<open>Z\<close> and the accented
  capitals \<open>0xC0\<close> to \<open>0xDE\<close> (the multiplication sign \<open>0xD7\<close> apart) move up by
  \<open>0x20\<close>; every other character stays.
\<close>

definition toLowerCase_char :: "char \<Rightarrow> char" where
  "toLowerCase_char c =
     (let n = (of_char c :: nat)
      in if (65 \<le> n \<and> n \<le> 90) \<or> (192 \<le> n \<and> n \<le> 222 \<and> n \<noteq> 215)
         then char_of (n + 32) else c)"

definition toLowerCase :: "string \<Rightarrow> string" where
  "toLowerCase s = map toLowerCase_char s"

text \<open>\<open>s.lastIndexOf(c)\<close>: the index of the last occurrence, or \<open>-1\<close>.\<close>

fun lastIndexOf :: "string \<Rightarrow> char \<Rightarrow> int" where
  "lastIndexOf [] c = - 1"
| "lastIndexOf (x # xs) c =
     (let k = lastIndexOf xs c
      in if 0 \<le> k then k + 1 else if x = c then 0 else - 1)"

text \<open>\<open>s.slice(a, b)\<close> for \<open>0 \<le> a\<close> and \<open>0 \<le> b\<close>.\<close>

definition slice :: "string \<Rightarrow> nat \<Rightarrow> nat \<Rightarrow> string" where
  "slice s a b = take (b - a) (drop a s)"

subsection \<open>\<open>path.normalize\<close> and \<open>path.join\<close>\<close>

text \<open>
  \<open>normalizeString\<close> walks the path one character at a time and keeps the
  normalised prefix in \<open>res\<close>. Node keeps the index \<open>lastSlash\<close> of the last
  separator and reads the current segment as \<open>path.slice(lastSlash + 1, i)\<close>; the
  state below carries that slice as \<open>seg\<close>, so that \<open>lastSlash === i - 1\<close> is
  \<open>seg = []\<close>. \<open>dots\<close> counts the characters of a segment made of dots only and is
  \<open>-1\<close> for any other segment.
\<close>

record norm_state =
  res :: string
  lastSegmentLength :: int
  seg :: string
  dots :: int

definition norm_init :: norm_state where
  "norm_init = \<lparr>res = [], lastSegmentLength = 0, seg = [], dots = 0\<rparr>"

text \<open>The end of an iteration that met a separator: \<open>lastSlash = i; dots = 0\<close>.\<close>

definition next_segment :: "norm_state \<Rightarrow> norm_state" where
  "next_segment st = st\<lparr>seg := [], dots := 0\<rparr>"

text \<open>The branch \<open>if (allowAboveRoot)\<close> that keeps a leading \<open>..\<close> of a relative path.\<close>

definition above_root :: "bool \<Rightarrow> norm_state \<Rightarrow> norm_state" where
  "above_root allowAboveRoot st =
     next_segment
       (if allowAboveRoot
        then st\<lparr>res := (if res st \<noteq> [] then res st @ ''/..'' else ''..''),
                lastSegmentLength := 2\<rparr>
        else st)"

definition at_separator :: "bool \<Rightarrow> norm_state \<Rightarrow> norm_state" where
  "at_separator allowAboveRoot st =
     (if seg st = [] \<or> dots st = 1 then next_segment st
      else if dots st = 2 then
        (if length (res st) < 2 \<or> lastSegmentLength st \<noteq> 2 \<or>
            res st ! (length (res st) - 1) \<noteq> CHR ''.'' \<or>
            res st ! (length (res st) - 2) \<noteq> CHR ''.''
         then
           (if length (res st) > 2 then
              (let lastSlashIndex = lastIndexOf (res st) CHR ''/''
               in if lastSlashIndex = - 1
                  then next_segment (st\<lparr>res := [], lastSegmentLength := 0\<rparr>)
                  else (let r = slice (res st) 0 (nat lastSlashIndex)
                        in next_segment
                             (st\<lparr>res := r,
                                 lastSegmentLength :=
                                   int (length r) - 1 - lastIndexOf r CHR ''/''\<rparr>)))
            else if res st \<noteq> [] then
              next_segment (st\<lparr>res := [], lastSegmentLength := 0\<rparr>)
            else above_root allowAboveRoot st)
         else above_root allowAboveRoot st)
      else
        next_segment
          (st\<lparr>res := (if res st \<noteq> [] then res st @ ''/'' @ seg st else seg st),
              lastSegmentLength := int (length (seg st))\<rparr>))"

definition normalizeString_step :: "bool \<Rightarrow> char \<Rightarrow> norm_state \<Rightarrow> norm_state" where
  "normalizeString_step allowAboveRoot code st =
     (if code = CHR ''/'' then at_separator allowAboveRoot st
      else if code = CHR ''.'' \<and> dots st \<noteq> - 1
      then st\<lparr>seg := seg st @ [code], dots := dots st + 1\<rparr>
      else st\<lparr>seg := seg st @ [code], dots := - 1\<rparr>)"

fun normalizeString_loop :: "bool \<Rightarrow> string \<Rightarrow> norm_state \<Rightarrow> norm_state" where
  "normalizeString_loop allowAboveRoot [] st = st"
| "normalizeString_loop allowAboveRoot (code # rest) st =
     normalizeString_loop allowAboveRoot rest (normalizeString_step allowAboveRoot code st)"

text \<open>
  The loop runs once more after the last character, on a separator of its own,
  unless the path already ends with one.
\<close>

definition normalizeString :: "string \<Rightarrow> bool \<Rightarrow> string" where
  "normalizeString path allowAboveRoot =
     res (normalizeString_loop allowAboveRoot
            (if path \<noteq> [] \<and> last path = CHR ''/'' then path else path @ ''/'')
            norm_init)"

definition normalize :: "string \<Rightarrow> string" where
  "normalize path =
     (if path = [] then ''.''
      else
        (let isAbsolute = (hd path = CHR ''/'');
             trailingSeparator = (last path = CHR ''/'');
             p = normalizeString path (\<not> isAbsolute)
         in if p = [] then
              (if isAbsolute then ''/'' else if trailingSeparator then ''./'' else ''.'')
            else
              (let p' = (if trailingSeparator then p @ ''/'' else p)
               in if isAbsolute then CHR ''/'' # p' else p')))"

text \<open>
  \<open>path.join(...args)\<close>: the non-empty arguments, put together with \<open>/\<close> between
  them, then normalised.
\<close>

fun join_args :: "string list \<Rightarrow> string option \<Rightarrow> string option" where
  "join_args [] joined = joined"
| "join_args (arg # args) joined =
     join_args args
       (if arg \<noteq> []
        then (case joined of None \<Rightarrow> Some arg | Some j \<Rightarrow> Some (j @ ''/'' @ arg))
        else joined)"

definition join :: "string list \<Rightarrow> string" where
  "join args = (case join_args args None of None \<Rightarrow> ''.'' | Some joined \<Rightarrow> normalize joined)"

subsection \<open>\<open>path.extname\<close>\<close>

text \<open>
  \<open>extname\<close> scans the path from its last character down to its first. The loop
  below takes the characters still to be scanned, last one first; the index \<open>i\<close>
  of the character at hand is the number of characters before it; \<open>endIdx\<close> is the variable \<open>end\<close>.
\<close>

record ext_state =
  startDot :: int
  startPart :: int
  endIdx :: int
  matchedSlash :: bool
  preDotState :: int

definition ext_init :: ext_state where
  "ext_init = \<lparr>startDot = - 1, startPart = 0, endIdx = - 1, matchedSlash = True, preDotState = 0\<rparr>"

fun extname_loop :: "string \<Rightarrow> ext_state \<Rightarrow> ext_state" where
  "extname_loop [] st = st"
| "extname_loop (code # earlier) st =
     (let i = int (length earlier)
      in if code = CHR ''/'' then
           (if \<not> matchedSlash st then st\<lparr>startPart := i + 1\<rparr>
            else extname_loop earlier st)
         else
           (let st1 = (if endIdx st = - 1 then st\<lparr>matchedSlash := False, endIdx := i + 1\<rparr> else st);
                st2 = (if code = CHR ''.'' then
                         (if startDot st1 = - 1 then st1\<lparr>startDot := i\<rparr>
                          else if preDotState st1 \<noteq> 1 then st1\<lparr>preDotState := 1\<rparr>
                          else st1)
                       else if startDot st1 \<noteq> - 1 then st1\<lparr>preDotState := - 1\<rparr>
                       else st1)
            in extname_loop earlier st2))"

definition extname :: "string \<Rightarrow> string" where
  "extname path =
     (let st = extname_loop (rev path) ext_init
      in if startDot st = - 1 \<or> endIdx st = - 1 \<or> preDotState st = 0 \<or>
            (preDotState st = 1 \<and> startDot st = endIdx st - 1 \<and> startDot st = startPart st + 1)
         then []
         else slice path (nat (startDot st)) (nat (endIdx st)))"

subsection \<open>The request handler\<close>

text \<open>
  The table \<open>mimeTypes\<close>. A property lookup on the object literal finds the eleven
  keys below; the properties an object literal inherits have names that are neither
  empty nor start with a dot, so no result of \<open>extname\<close>, which is empty or starts
  with a dot (lemma \<open>extname_shape\<close>), names one of them.
\<close>

definition mimeTypes_entries :: "(string \<times> string) list" where
  "mimeTypes_entries =
     [(''.html'', ''text/html''),
      (''.css'', ''text/css''),
      (''.js'', ''application/javascript''),
      (''.json'', ''application/json''),
      (''.png'', ''image/png''),
      (''.jpg'', ''image/jpeg''),
      (''.gif'', ''image/gif''),
      (''.svg'', ''image/svg+xml''),
      (''.ico'', ''image/x-icon''),
      (''.md'', ''text/markdown''),
      (''.txt'', ''text/plain'')]"

definition mimeTypes :: "string \<rightharpoonup> string" where
  "mimeTypes = map_of mimeTypes_entries"

text \<open>
  The disk as \<open>fs.readFile\<close> sees it: for every path either the bytes of the file
  or the \<open>code\<close> of the error the read ends with, both handed to the callback.
  Which code a missing, unreadable or misplaced entry yields is the operating
  system's choice and stays a parameter here. Reading hands the disk back as it
  was.
\<close>

datatype read_result = Failed string | Content string

type_synonym filesystem = "string \<Rightarrow> read_result"

definition readFile :: "string \<Rightarrow> filesystem \<Rightarrow> read_result \<times> filesystem" where
  "readFile filePath fs = (fs filePath, fs)"

text \<open>The calls the handler makes on the response object \<open>res\<close>, in order.\<close>

datatype res_call = WriteHead nat "(string \<times> string) list" | End string

text \<open>Lines 25 and 26: the path the request is read from.\<close>

definition filePath :: "string \<Rightarrow> string \<Rightarrow> string" where
  "filePath STATIC_DIR url =
     join [STATIC_DIR, if url = ''/'' then ''/index.html'' else url]"

text \<open>Lines 28 and 29: the type announced for that path.\<close>

definition contentType :: "string \<Rightarrow> string" where
  "contentType path =
     (let ext = toLowerCase (extname path)
      in case mimeTypes ext of Some t \<Rightarrow> t | None \<Rightarrow> ''application/octet-stream'')"

text \<open>Lines 31 to 44: the read and the answer to each of its outcomes.\<close>

definition handler :: "string \<Rightarrow> string \<Rightarrow> filesystem \<Rightarrow> res_call list \<times> filesystem" where
  "handler STATIC_DIR url fs =
     (let path = filePath STATIC_DIR url;
          ctype = contentType path;
          (r, fs') = readFile path fs
      in case r of
           Failed code \<Rightarrow>
             (if code = ''ENOENT''
              then ([WriteHead 404 [], End ''File not found''], fs')
              else ([WriteHead 500 [], End ''Server error''], fs'))
         | Content content \<Rightarrow>
             ([WriteHead 200 [(''Content-Type'', ctype)], End content], fs'))"

text \<open>
  What the client receives: a response is complete when the handler has written one
  head and ended the body once, in that order.
\<close>

record response =
  status :: nat
  headers :: "(string \<times> string) list"
  body :: string

fun response_of :: "res_call list \<Rightarrow> response option" where
  "response_of [WriteHead s hs, End b] = Some \<lparr>status = s, headers = hs, body = b\<rparr>"
| "response_of calls = None"

definition respond :: "string \<Rightarrow> string \<Rightarrow> filesystem \<Rightarrow> response option" where
  "respond STATIC_DIR url fs = response_of (fst (handler STATIC_DIR url fs))"


subsection \<open>Notions the properties are stated with\<close>

text \<open>
  A directory entry name: not empty, without a separator, and neither \<open>.\<close> nor
  \<open>..\<close>.
\<close>

definition plain_segment :: "string \<Rightarrow> bool" where
  "plain_segment s \<longleftrightarrow> s \<noteq> [] \<and> CHR ''/'' \<notin> set s \<and> s \<noteq> ''.'' \<and> s \<noteq> ''..''"

text \<open>
  The text \<open>/a/b/c\<close> of the segments \<open>a\<close>, \<open>b\<close>, \<open>c\<close>, and the absolute path of
  the directory reached from the filesystem root through the names \<open>segs\<close>; the
  filesystem root itself is \<open>/\<close>.
\<close>

definition segments_path :: "string list \<Rightarrow> string" where
  "segments_path segs = concat (map ((#) CHR ''/'') segs)"

definition directory_path :: "string list \<Rightarrow> string" where
  "directory_path segs = (if segs = [] then ''/'' else segments_path segs)"

text \<open>The pieces of a path between its separators.\<close>

fun split_slash :: "string \<Rightarrow> string list" where
  "split_slash [] = [[]]"
| "split_slash (c # cs) =
     (if c = CHR ''/'' then [] # split_slash cs
      else (case split_slash cs of [] \<Rightarrow> [[c]] | s # ss \<Rightarrow> (c # s) # ss))"

text \<open>A path lies inside a directory when it is the directory or continues it below a separator.\<close>

definition inside_directory :: "string \<Rightarrow> string \<Rightarrow> bool" where
  "inside_directory dir p \<longleftrightarrow> p = dir \<or> take (Suc (length dir)) p = dir @ ''/''"

text \<open>
  Walking from a directory, given as the names that lead to it, along the pieces of
  a request: an empty piece or \<open>.\<close> stays, \<open>..\<close> goes up (and stays at the
  filesystem root), a name goes down.
\<close>

definition walk_step :: "string list \<Rightarrow> string \<Rightarrow> string list" where
  "walk_step stack item =
     (if item = [] \<or> item = ''.'' then stack
      else if item = ''..'' then butlast stack
      else stack @ [item])"

definition walk :: "string list \<Rightarrow> string list \<Rightarrow> string list" where
  "walk stack items = foldl walk_step stack items"

text \<open>
  The last component of a path, trailing separators left out, and the extension of
  a component: from its last dot to its end, and empty when it has no dot, when its
  only dot is its first character, or when it is \<open>..\<close>.
\<close>

definition last_component :: "string \<Rightarrow> string" where
  "last_component path =
     rev (takeWhile (\<lambda>c. c \<noteq> CHR ''/'') (dropWhile (\<lambda>c. c = CHR ''/'') (rev path)))"

definition component_extension :: "string \<Rightarrow> string" where
  "component_extension b =
     (let e = rev (takeWhile (\<lambda>c. c \<noteq> CHR ''.'') (rev b))
      in if CHR ''.'' \<notin> set b \<or> length b = Suc (length e) \<or> b = ''..'' then []
         else CHR ''.'' # e)"

text \<open>
  The extension as the specification words it, to be compared with the one the
  handler computes: the substring of the resolved path from its last \<open>.\<close> to its
  end, lower-cased, and nothing when the path has no \<open>.\<close>; and the type the table
  gives for it.
\<close>

definition spec_extension :: "string \<Rightarrow> string" where
  "spec_extension path =
     toLowerCase
       (if CHR ''.'' \<in> set path
        then CHR ''.'' # rev (takeWhile (\<lambda>c. c \<noteq> CHR ''.'') (rev path))
        else [])"

definition spec_contentType :: "string \<Rightarrow> string" where
  "spec_contentType path =
     (case mimeTypes (spec_extension path) of
        Some t \<Rightarrow> t | None \<Rightarrow> ''application/octet-stream'')"

text \<open>
  Two devices of the proofs about \<open>normalizeString\<close>: the value \<open>dots\<close> has for a
  segment read so far, and the state the loop is in after a separator when the
  segments kept so far are \<open>segs\<close>.
\<close>

definition dots_of :: "string \<Rightarrow> int" where
  "dots_of s = (if set s \<subseteq> {CHR ''.''} then int (length s) else - 1)"

definition stacked :: "string list \<Rightarrow> norm_state \<Rightarrow> bool" where
  "stacked segs st \<longleftrightarrow>
     res st = tl (segments_path segs) \<and>
     lastSegmentLength st = (if segs = [] then 0 else int (length (last segs))) \<and>
     seg st = [] \<and> dots st = 0"

subsection \<open>A small disk for the examples\<close>

text \<open>
  The root \<open>/srv/www\<close> holds the readable files \<open>index.html\<close>, \<open>LOGO.PNG\<close>,
  \<open>data.unknownext\<close> and a file named \<open>.html\<close>, and a file \<open>secret.txt\<close> that the
  server may not read; its parent \<open>/srv\<close> holds \<open>private.txt\<close>; reading a
  directory fails with \<open>EISDIR\<close>; nothing else exists.
\<close>

definition demo_disk :: filesystem where
  "demo_disk p =
     (if p = ''/srv/www/index.html'' then Content ''<h1>Hi</h1>''
      else if p = ''/srv/www/LOGO.PNG'' then Content ''PNG''
      else if p = ''/srv/www/data.unknownext'' then Content ''raw''
      else if p = ''/srv/www/.html'' then Content ''<p>dot</p>''
      else if p = ''/srv/www/secret.txt'' then Failed ''EACCES''
      else if p = ''/srv/private.txt'' then Content ''secret''
      else if p = ''/srv/www'' \<or> p = ''/srv/www/'' \<or> p = ''/srv'' \<or> p = ''/srv/'' \<or> p = ''/''
        then Failed ''EISDIR''
      else Failed ''ENOENT'')"

subsection \<open>A disk of files and directories\<close>

text \<open>
  What a read ends with on a POSIX disk, given the entries the disk holds: the bytes
  of a regular file; \<open>EISDIR\<close> for a directory; for a path that names no entry,
  \<open>ENOTDIR\<close> when a regular file stands where the path needs a directory, and
  \<open>ENOENT\<close> otherwise. Permissions are left out: every file is readable.
\<close>

datatype node = File string | Directory

definition below_file :: "(string \<rightharpoonup> node) \<Rightarrow> string \<Rightarrow> bool" where
  "below_file entries p =
     list_ex (\<lambda>i. p ! i = CHR ''/'' \<and>
                  (case entries (take i p) of Some (File b) \<Rightarrow> True | _ \<Rightarrow> False))
       [0..<length p]"

definition posix_read :: "(string \<rightharpoonup> node) \<Rightarrow> filesystem" where
  "posix_read entries p =
     (case entries p of
        Some (File bytes) \<Rightarrow> Content bytes
      | Some Directory \<Rightarrow> Failed ''EISDIR''
      | None \<Rightarrow> if below_file entries p then Failed ''ENOTDIR'' else Failed ''ENOENT'')"

text \<open>
  The root \<open>/srv/www\<close> with the two regular files \<open>index.html\<close> and \<open>.css\<close>.
\<close>

definition demo_entries :: "string \<rightharpoonup> node" where
  "demo_entries =
     map_of [(''/srv'', Directory),
             (''/srv/www'', Directory),
             (''/srv/www/index.html'', File ''<h1>Hi</h1>''),
             (''/srv/www/.css'', File ''body{}'')]"

subsection \<open>The calls the handler makes on the platform\<close>

text \<open>
  A handler acts on the world through calls of the platform: on the file system
  (\<open>fs.readFile\<close>, \<open>fs.writeFile\<close>, \<open>fs.unlink\<close>), on the network (\<open>http.request\<close>,
  a request sent to another host) and on the response object. The world holds the
  disk, the requests sent out, and the calls received by the response object; a
  write or an unlink changes the disk, a request sent out is recorded, a read
  changes neither.
\<close>

datatype platform_call =
    Fs_readFile string
  | Fs_writeFile string string
  | Fs_unlink string
  | Http_request string
  | Res res_call

record world =
  disk :: filesystem
  requests_sent :: "string list"
  res_calls :: "res_call list"

fun perform :: "world \<Rightarrow> platform_call \<Rightarrow> world" where
  "perform w (Fs_readFile p) = w\<lparr>disk := snd (readFile p (disk w))\<rparr>"
| "perform w (Fs_writeFile p bytes) = w\<lparr>disk := (disk w)(p := Content bytes)\<rparr>"
| "perform w (Fs_unlink p) = w\<lparr>disk := (disk w)(p := Failed ''ENOENT'')\<rparr>"
| "perform w (Http_request u) = w\<lparr>requests_sent := requests_sent w @ [u]\<rparr>"
| "perform w (Res c) = w\<lparr>res_calls := res_calls w @ [c]\<rparr>"

definition run :: "platform_call list \<Rightarrow> world \<Rightarrow> world" where
  "run calls w = foldl perform w calls"

text \<open>The calls that neither write to the disk nor reach another host.\<close>

fun reads_or_responds :: "platform_call \<Rightarrow> bool" where
  "reads_or_responds (Fs_readFile p) = True"
| "reads_or_responds (Res c) = True"
| "reads_or_responds c = False"

text \<open>
  Lines 24 to 45 once more, as the list of the calls made: the read of line 31,
  then the two calls of the branch of the callback that the outcome selects.
\<close>

definition handler_calls :: "string \<Rightarrow> string \<Rightarrow> filesystem \<Rightarrow> platform_call list" where
  "handler_calls STATIC_DIR url fs =
     (let path = filePath STATIC_DIR url;
          ctype = contentType path
      in Fs_readFile path #
         (case fst (readFile path fs) of
            Failed code \<Rightarrow>
              (if code = ''ENOENT''
               then [Res (WriteHead 404 []), Res (End ''File not found'')]
               else [Res (WriteHead 500 []), Res (End ''Server error'')])
          | Content content \<Rightarrow>
              [Res (WriteHead 200 [(''Content-Type'', ctype)]), Res (End content)]))"

section \<open>What \<open>path.join\<close> and \<open>path.extname\<close> compute\<close>

lemma normalizeString_loop_append:
  "normalizeString_loop a (xs @ ys) st = normalizeString_loop a ys (normalizeString_loop a xs st)"
  by (induction xs arbitrary: st) simp_all

lemma dots_of_snoc:
  "dots_of (s @ [c]) = (if c = CHR ''.'' \<and> dots_of s \<noteq> - 1 then dots_of s + 1 else - 1)"
  by (auto simp: dots_of_def)

lemma scan_segment:
  "CHR ''/'' \<notin> set cs \<Longrightarrow> dots st = dots_of (seg st) \<Longrightarrow>
   normalizeString_loop a cs st = st\<lparr>seg := seg st @ cs, dots := dots_of (seg st @ cs)\<rparr>"
proof (induction cs arbitrary: st)
  case Nil
  then show ?case by simp
next
  case (Cons c cs)
  let ?st' = "normalizeString_step a c st"
  from Cons.prems have c: "c \<noteq> CHR ''/''" and cs: "CHR ''/'' \<notin> set cs" by auto
  have st': "?st' = st\<lparr>seg := seg st @ [c], dots := dots_of (seg st @ [c])\<rparr>"
    using c Cons.prems(2) by (simp add: normalizeString_step_def dots_of_snoc)
  then have "dots ?st' = dots_of (seg ?st')" by simp
  from Cons.IH [OF cs this] show ?case by (simp add: st')
qed

lemma dots_of_1: "dots_of s = 1 \<longleftrightarrow> s = ''.''"
proof
  assume "dots_of s = 1"
  then have "set s \<subseteq> {CHR ''.''}" "length s = 1" by (auto simp: dots_of_def split: if_splits)
  then show "s = ''.''" by (cases s) auto
qed (simp add: dots_of_def)

lemma dots_of_2: "dots_of s = 2 \<longleftrightarrow> s = ''..''"
proof
  assume "dots_of s = 2"
  then have "set s \<subseteq> {CHR ''.''}" "length s = 2" by (auto simp: dots_of_def split: if_splits)
  then show "s = ''..''" by (cases s; cases "tl s") auto
qed (simp add: dots_of_def)

lemma push_segment:
  assumes "plain_segment s" and "seg st = []" and "dots st = 0"
  shows "normalizeString_loop a (s @ ''/'') st =
           st\<lparr>res := (if res st \<noteq> [] then res st @ ''/'' @ s else s),
              lastSegmentLength := int (length s), seg := [], dots := 0\<rparr>"
proof -
  from assms have d: "dots st = dots_of (seg st)" by (simp add: dots_of_def)
  from assms have ns: "CHR ''/'' \<notin> set s" by (simp add: plain_segment_def)
  from assms have d1: "dots_of s \<noteq> 1" and d2: "dots_of s \<noteq> 2" and ne: "s \<noteq> []"
    by (simp_all add: plain_segment_def dots_of_1 dots_of_2)
  show ?thesis
    using d1 d2 ne assms(2)
    by (simp add: normalizeString_loop_append scan_segment [OF ns d]
        normalizeString_step_def at_separator_def next_segment_def)
qed

lemma after_separator:
  "seg (at_separator a st) = [] \<and> dots (at_separator a st) = 0"
  by (simp add: at_separator_def next_segment_def above_root_def Let_def)

lemma after_slash:
  "seg (normalizeString_loop a (xs @ ''/'') st) = [] \<and> dots (normalizeString_loop a (xs @ ''/'') st) = 0"
  by (simp add: normalizeString_loop_append normalizeString_step_def after_separator)

lemma segments_path_simps [simp]:
  "segments_path [] = []"
  "segments_path (s # ss) = CHR ''/'' # s @ segments_path ss"
  "segments_path (ss @ ts) = segments_path ss @ segments_path ts"
  by (simp_all add: segments_path_def)

lemma segments_path_eq_Nil [simp]: "segments_path ss = [] \<longleftrightarrow> ss = []"
  by (cases ss) simp_all

lemma tl_segments_path_snoc:
  "tl (segments_path (ss @ [s])) = (if ss = [] then s else tl (segments_path ss) @ ''/'' @ s)"
  by (cases ss) simp_all

lemma stacked_init: "stacked [] norm_init"
  by (simp add: stacked_def norm_init_def)

lemma tl_segments_path_eq_Nil:
  "\<forall>s\<in>set ss. s \<noteq> [] \<Longrightarrow> tl (segments_path ss) = [] \<longleftrightarrow> ss = []"
  by (cases ss) auto

lemma stacked_push:
  assumes "stacked segs st" and "plain_segment s" and "\<forall>x\<in>set segs. plain_segment x"
  shows "stacked (segs @ [s]) (normalizeString_loop a (s @ ''/'') st)"
proof -
  from assms(1) have st: "seg st = []" "dots st = 0" "res st = tl (segments_path segs)"
    by (simp_all add: stacked_def)
  from assms(3) have "\<forall>x\<in>set segs. x \<noteq> []" by (auto simp: plain_segment_def)
  then have e: "tl (segments_path segs) = [] \<longleftrightarrow> segs = []" by (rule tl_segments_path_eq_Nil)
  show ?thesis
    unfolding push_segment [OF assms(2) st(1,2)]
    using st(3) e by (simp add: stacked_def tl_segments_path_snoc)
qed

lemma stacked_empty:
  assumes "stacked segs st"
  shows "stacked segs (normalizeString_loop a ''/'' st)"
  using assms by (simp add: stacked_def normalizeString_step_def at_separator_def next_segment_def)

lemma stacked_dot:
  assumes "stacked segs st"
  shows "stacked segs (normalizeString_loop a ''./'' st)"
  using assms by (simp add: stacked_def normalizeString_step_def at_separator_def next_segment_def)

lemma lastIndexOf_none: "c \<notin> set s \<Longrightarrow> lastIndexOf s c = - 1"
  by (induction s) (auto simp: Let_def)

lemma lastIndexOf_last: "c \<notin> set s \<Longrightarrow> lastIndexOf (x @ c # s) c = int (length x)"
  by (induction x) (simp_all add: Let_def lastIndexOf_none)

lemma plain_not_dotdot_end:
  assumes "plain_segment s" and "r = x @ s" and "length s = 2"
  shows "r ! (length r - 1) \<noteq> CHR ''.'' \<or> r ! (length r - 2) \<noteq> CHR ''.''"
proof -
  from assms(3) obtain c d where s: "s = [c, d]"
    by (cases s; cases "tl s") auto
  with assms(1) have "c \<noteq> CHR ''.'' \<or> d \<noteq> CHR ''.''" by (auto simp: plain_segment_def)
  then show ?thesis by (auto simp: assms(2) s nth_append)
qed

lemma stacked_res_last:
  "segs \<noteq> [] \<Longrightarrow> \<exists>x. tl (segments_path segs) = x @ last segs \<and>
      (butlast segs = [] \<longrightarrow> x = []) \<and>
      (butlast segs \<noteq> [] \<longrightarrow> x = tl (segments_path (butlast segs)) @ ''/'')"
proof -
  assume "segs \<noteq> []"
  then have "segs = butlast segs @ [last segs]" by simp
  then have "tl (segments_path segs) = tl (segments_path (butlast segs @ [last segs]))" by simp
  then show ?thesis by (simp add: tl_segments_path_snoc del: segments_path_simps(3))
qed

lemma stacked_pop:
  assumes "stacked segs st" and "segs \<noteq> []" and "\<forall>x\<in>set segs. plain_segment x"
  shows "stacked (butlast segs) (normalizeString_loop False ''../'' st)"
proof -
  let ?s = "last segs" and ?b = "butlast segs"
  from assms(1) have st: "seg st = []" "dots st = 0" "res st = tl (segments_path segs)"
    "lastSegmentLength st = int (length ?s)"
    using assms(2) by (simp_all add: stacked_def)
  from assms(2,3) have ps: "plain_segment ?s" by simp
  then have sne: "?s \<noteq> []" and sns: "CHR ''/'' \<notin> set ?s" by (simp_all add: plain_segment_def)
  from stacked_res_last [OF assms(2)] obtain x where
    x: "tl (segments_path segs) = x @ ?s" "?b = [] \<longrightarrow> x = []"
       "?b \<noteq> [] \<longrightarrow> x = tl (segments_path ?b) @ ''/''" by blast
  let ?st2 = "normalizeString_loop False ''..'' st"
  have st2: "?st2 = st\<lparr>seg := ''..'', dots := 2\<rparr>"
    using st by (simp add: normalizeString_step_def)
  have guard: "length (res st) < 2 \<or> lastSegmentLength st \<noteq> 2 \<or>
            res st ! (length (res st) - 1) \<noteq> CHR ''.'' \<or>
            res st ! (length (res st) - 2) \<noteq> CHR ''.''"
  proof (cases "length ?s = 2")
    case True
    from plain_not_dotdot_end [OF ps _ True, of "res st" x] st(3) x(1)
    show ?thesis by simp
  next
    case False
    then show ?thesis by (simp add: st(4))
  qed
  have bne: "\<forall>y\<in>set ?b. y \<noteq> []"
    using assms(3) by (auto simp: plain_segment_def dest: in_set_butlastD)
  have sep: "at_separator False (st\<lparr>seg := ''..'', dots := 2\<rparr>) =
             st\<lparr>res := tl (segments_path ?b),
                lastSegmentLength := (if ?b = [] then 0 else int (length (last ?b))),
                seg := [], dots := 0\<rparr>"
  proof (cases "?b = []")
    case True
    with x have r: "res st = ?s" by (simp add: st(3))
    show ?thesis
      using guard sne True
      by (simp add: at_separator_def next_segment_def r lastIndexOf_none [OF sns])
  next
    case False
    with x have r: "res st = tl (segments_path ?b) @ CHR ''/'' # ?s" by (simp add: st(3))
    from False have bl: "?b = butlast ?b @ [last ?b]" by simp
    have lne: "last ?b \<noteq> []" and lns: "CHR ''/'' \<notin> set (last ?b)"
      using assms(3) False by (auto simp: plain_segment_def dest: in_set_butlastD last_in_set)
    have t: "tl (segments_path ?b) \<noteq> []"
      using tl_segments_path_eq_Nil [OF bne] False by simp
    have len: "length (res st) > 2" using t sne by (cases "tl (segments_path ?b)"; cases ?s) (simp_all add: r)
    have li: "lastIndexOf (res st) CHR ''/'' = int (length (tl (segments_path ?b)))"
      by (simp add: r lastIndexOf_last [OF sns])
    have lb: "int (length (tl (segments_path ?b))) - 1 - lastIndexOf (tl (segments_path ?b)) CHR ''/''
               = int (length (last ?b))"
    proof (cases "butlast ?b = []")
      case True
      with bl have "tl (segments_path ?b) = last ?b"
        by (metis append_Nil tl_segments_path_snoc)
      then show ?thesis by (simp add: lastIndexOf_none [OF lns])
    next
      case False
      with bl have "tl (segments_path ?b) = tl (segments_path (butlast ?b)) @ CHR ''/'' # last ?b"
        by (metis append_Cons append_Nil tl_segments_path_snoc)
      then show ?thesis by (simp add: lastIndexOf_last [OF lns])
    qed
    show ?thesis
      using guard len False li lb
      by (simp add: at_separator_def next_segment_def slice_def Let_def) (simp add: r)
  qed
  have "normalizeString_loop False ''../'' st = at_separator False ?st2"
    by (simp add: normalizeString_step_def)
  then show ?thesis
    by (simp only: st2 sep) (simp add: stacked_def st)
qed

lemma stacked_pop_root:
  assumes "stacked [] st"
  shows "stacked [] (normalizeString_loop False ''../'' st)"
  using assms
  by (simp add: stacked_def normalizeString_step_def at_separator_def next_segment_def above_root_def)

lemma segments_path_slash:
  "segments_path items @ ''/'' = CHR ''/'' # concat (map (\<lambda>it. it @ ''/'') items)"
  by (induction items) simp_all

lemma stacked_item:
  assumes "stacked segs st" and "\<forall>x\<in>set segs. plain_segment x" and "CHR ''/'' \<notin> set item"
  shows "stacked (walk_step segs item) (normalizeString_loop False (item @ ''/'') st)
         \<and> (\<forall>x\<in>set (walk_step segs item). plain_segment x)"
proof -
  consider "item = []" | "item = ''.''" | "item = ''..''" "segs = []" | "item = ''..''" "segs \<noteq> []"
    | "plain_segment item"
    using assms(3) by (auto simp: plain_segment_def)
  then show ?thesis
  proof cases
    case 1
    with assms show ?thesis by (simp add: walk_step_def stacked_empty del: normalizeString_loop.simps)
  next
    case 2
    with assms show ?thesis using stacked_dot [OF assms(1)] by (simp add: walk_step_def del: normalizeString_loop.simps)
  next
    case 3
    with assms show ?thesis using stacked_pop_root [of st] by (simp add: walk_step_def del: normalizeString_loop.simps)
  next
    case 4
    with assms show ?thesis using stacked_pop [OF assms(1) 4(2) assms(2)]
      by (auto simp: walk_step_def simp del: normalizeString_loop.simps dest: in_set_butlastD)
  next
    case 5
    then have "item \<noteq> []" "item \<noteq> ''.''" "item \<noteq> ''..''" by (auto simp: plain_segment_def)
    with 5 assms show ?thesis using stacked_push [OF assms(1) 5 assms(2)]
      by (simp add: walk_step_def del: normalizeString_loop.simps)
  qed
qed

lemma stacked_walk:
  assumes "stacked segs st" and "\<forall>x\<in>set segs. plain_segment x"
    and "\<forall>it\<in>set items. CHR ''/'' \<notin> set it"
  shows "stacked (walk segs items)
           (normalizeString_loop False (concat (map (\<lambda>it. it @ ''/'') items)) st)
         \<and> (\<forall>x\<in>set (walk segs items). plain_segment x)"
  using assms
proof (induction items arbitrary: segs st)
  case Nil
  then show ?case by (simp add: walk_def)
next
  case (Cons item items)
  from Cons.prems have i: "CHR ''/'' \<notin> set item" and r: "\<forall>it\<in>set items. CHR ''/'' \<notin> set it"
    by simp_all
  note s = stacked_item [OF Cons.prems(1,2) i]
  from Cons.IH [OF s [THEN conjunct1] s [THEN conjunct2] r]
  show ?case by (simp add: walk_def normalizeString_loop_append)
qed

lemma walk_plain:
  "\<forall>x\<in>set items. plain_segment x \<Longrightarrow> walk stack items = stack @ items"
  by (induction items arbitrary: stack) (auto simp: walk_def walk_step_def plain_segment_def)

lemma plain_no_slash: "\<forall>x\<in>set segs. plain_segment x \<Longrightarrow> \<forall>x\<in>set segs. CHR ''/'' \<notin> set x"
  by (simp add: plain_segment_def)

lemma stacked_directory:
  assumes "\<forall>x\<in>set segs. plain_segment x"
  shows "stacked segs (normalizeString_loop False (directory_path segs @ ''/'') norm_init)"
proof (cases "segs = []")
  case True
  have "stacked [] (normalizeString_loop False ''/'' (normalizeString_loop False ''/'' norm_init))"
    by (intro stacked_empty stacked_init)
  with True show ?thesis by (simp add: directory_path_def)
next
  case False
  have e: "stacked [] (normalizeString_loop False ''/'' norm_init)"
    by (intro stacked_empty stacked_init)
  from stacked_walk [OF e _ plain_no_slash [OF assms]]
  have "stacked (walk [] segs)
          (normalizeString_loop False (concat (map (\<lambda>it. it @ ''/'') segs))
             (normalizeString_loop False ''/'' norm_init))" by simp
  then have "stacked segs (normalizeString_loop False (segments_path segs @ ''/'') norm_init)"
    unfolding segments_path_slash by (simp add: walk_plain [OF assms])
  with False show ?thesis by (simp add: directory_path_def)
qed

lemma walk_trailing_empty: "walk stack (items @ [[]]) = walk stack items"
  by (simp add: walk_def walk_step_def)

lemma segments_path_no_trailing:
  assumes "items \<noteq> []" and "last items \<noteq> []"
  shows "last (segments_path items) = last (last items)"
  using assms by (induction items) (auto simp: last_append)

lemma directory_path_hd: "directory_path segs \<noteq> [] \<and> hd (directory_path segs) = CHR ''/''"
  by (cases segs) (simp_all add: directory_path_def)

lemma normalizeString_directory:
  assumes "\<forall>x\<in>set segs. plain_segment x" and "items \<noteq> []"
    and "\<forall>it\<in>set items. CHR ''/'' \<notin> set it"
  shows "normalizeString (directory_path segs @ ''/'' @ segments_path items) False
           = tl (segments_path (walk segs items))"
proof -
  let ?path = "directory_path segs @ ''/'' @ segments_path items"
  let ?st = "normalizeString_loop False (directory_path segs @ ''/'') norm_init"
  have st: "stacked segs ?st" by (rule stacked_directory [OF assms(1)])
  have run: "\<And>its. \<forall>it\<in>set its. CHR ''/'' \<notin> set it \<Longrightarrow>
      res (normalizeString_loop False (directory_path segs @ ''/'' @ segments_path its @ ''/'') norm_init)
        = tl (segments_path (walk segs its))"
  proof -
    fix its :: "string list"
    assume its: "\<forall>it\<in>set its. CHR ''/'' \<notin> set it"
    have "stacked segs (normalizeString_loop False ''/'' ?st)" by (rule stacked_empty [OF st])
    from stacked_walk [OF this assms(1) its]
    have "stacked (walk segs its)
            (normalizeString_loop False (segments_path its @ ''/'') ?st)"
      unfolding segments_path_slash by simp
    then have "res (normalizeString_loop False (segments_path its @ ''/'') ?st)
                 = tl (segments_path (walk segs its))"
      by (simp add: stacked_def)
    moreover have "directory_path segs @ ''/'' @ segments_path its @ ''/''
                     = (directory_path segs @ ''/'') @ (segments_path its @ ''/'')" by simp
    ultimately show "res (normalizeString_loop False
           (directory_path segs @ ''/'' @ segments_path its @ ''/'') norm_init)
        = tl (segments_path (walk segs its))"
      by (simp only: normalizeString_loop_append)
  qed
  show ?thesis
  proof (cases "last items = []")
    case True
    with assms(2) have items: "items = butlast items @ [[]]"
      by (metis append_butlast_last_id)
    have "segments_path (butlast items @ [[]]) = segments_path (butlast items) @ ''/''"
      by simp
    with items have sp: "segments_path items = segments_path (butlast items) @ ''/''"
      by simp
    have b: "\<forall>it\<in>set (butlast items). CHR ''/'' \<notin> set it"
      using assms(3) by (auto dest: in_set_butlastD)
    have w: "walk segs items = walk segs (butlast items)"
      using walk_trailing_empty [of segs "butlast items"] items by simp
    have l: "?path \<noteq> [] \<and> last ?path = CHR ''/''" unfolding sp by simp
    have "normalizeString ?path False = res (normalizeString_loop False ?path norm_init)"
      using l by (simp add: normalizeString_def)
    also have "\<dots> = tl (segments_path (walk segs (butlast items)))"
      unfolding sp by (rule run [OF b])
    finally show ?thesis by (simp add: w)
  next
    case False
    with assms(2,3) have "last (last items) \<noteq> CHR ''/''"
      by (metis last_in_set)
    with segments_path_no_trailing [OF assms(2) False]
    have "last ?path \<noteq> CHR ''/''" using assms(2) by simp
    then show ?thesis
      unfolding normalizeString_def using run [OF assms(3)] by simp
  qed
qed

lemma join_directory:
  assumes "\<forall>x\<in>set segs. plain_segment x" and "items \<noteq> []"
    and "\<forall>it\<in>set items. CHR ''/'' \<notin> set it"
  shows "join [directory_path segs, segments_path items] =
           (if walk segs items = [] then ''/''
            else segments_path (walk segs items) @ (if last items = [] then ''/'' else []))"
proof -
  let ?path = "directory_path segs @ ''/'' @ segments_path items"
  have j: "join [directory_path segs, segments_path items] = normalize ?path"
    using directory_path_hd [of segs] assms(2) by (simp add: join_def)
  have hd: "hd ?path = CHR ''/''" using directory_path_hd [of segs] by simp
  have tr: "last ?path = CHR ''/'' \<longleftrightarrow> last items = []"
  proof (cases "last items = []")
    case True
    with assms(2) have "items = butlast items @ [[]]" by (metis append_butlast_last_id)
    then have "segments_path items = segments_path (butlast items) @ ''/''"
      by (metis append_Nil2 segments_path_simps(1,2,3))
    then show ?thesis using True by simp
  next
    case False
    with assms(2,3) have "last (last items) \<noteq> CHR ''/''" by (metis last_in_set)
    with segments_path_no_trailing [OF assms(2) False] show ?thesis using assms(2) False by simp
  qed
  have pl: "\<forall>x\<in>set (walk segs items). x \<noteq> []"
    using stacked_walk [OF stacked_directory [OF assms(1)] assms(1,3)]
    by (auto simp: plain_segment_def)
  have e: "tl (segments_path (walk segs items)) = [] \<longleftrightarrow> walk segs items = []"
    by (rule tl_segments_path_eq_Nil [OF pl])
  have c: "walk segs items \<noteq> [] \<Longrightarrow>
      CHR ''/'' # tl (segments_path (walk segs items)) = segments_path (walk segs items)"
    by (cases "walk segs items") simp_all
  have ns: "normalizeString ?path False = tl (segments_path (walk segs items))"
    by (rule normalizeString_directory [OF assms])
  have ne: "?path \<noteq> []" by simp
  show ?thesis
    unfolding j normalize_def Let_def
    by (simp only: ns hd tr e ne if_False if_True simp_thms) (use c in auto)
qed

lemma extname_loop_char:
  assumes "c \<noteq> CHR ''/''" and "endIdx st \<noteq> - 1"
  shows "extname_loop (c # xs) st =
     extname_loop xs
       (if c = CHR ''.'' then
          (if startDot st = - 1 then st\<lparr>startDot := int (length xs)\<rparr>
           else st\<lparr>preDotState := 1\<rparr>)
        else if startDot st \<noteq> - 1 then st\<lparr>preDotState := - 1\<rparr>
        else st)"
proof (cases "preDotState st = 1")
  case True
  then have same: "st\<lparr>preDotState := 1\<rparr> = st" by (cases st) simp
  show ?thesis using assms True unfolding same by (auto simp: Let_def)
next
  case False
  then show ?thesis using assms by (auto simp: Let_def)
qed

lemma skip_slashes:
  "\<forall>c\<in>set z. c = CHR ''/'' \<Longrightarrow> matchedSlash st \<Longrightarrow>
   extname_loop (z @ xs) st = extname_loop xs st"
  by (induction z) simp_all

lemma first_character:
  "c \<noteq> CHR ''/'' \<Longrightarrow> endIdx st = - 1 \<Longrightarrow>
   extname_loop (c # xs) st =
     extname_loop (c # xs) (st\<lparr>matchedSlash := False, endIdx := int (length xs) + 1\<rparr>)"
  by (auto simp: Let_def)

lemma scan_before_dot:
  "startDot st = - 1 \<Longrightarrow> endIdx st \<noteq> - 1 \<Longrightarrow>
   CHR ''/'' \<notin> set cs \<Longrightarrow> CHR ''.'' \<notin> set cs \<Longrightarrow>
   extname_loop (cs @ xs) st = extname_loop xs st"
proof (induction cs)
  case Nil
  then show ?case by simp
next
  case (Cons c cs)
  then have "c \<noteq> CHR ''/''" "c \<noteq> CHR ''.''" by auto
  with Cons show ?case
    by (simp add: extname_loop_char del: extname_loop.simps)
qed

lemma scan_stop:
  "\<not> matchedSlash st \<Longrightarrow> t = [] \<or> hd t = CHR ''/'' \<Longrightarrow>
   extname_loop t st = st\<lparr>startPart := (if t = [] then startPart st else int (length t))\<rparr>"
  by (cases t) (simp_all add: Let_def)

lemma scan_after_dot:
  "startDot st \<noteq> - 1 \<Longrightarrow> endIdx st \<noteq> - 1 \<Longrightarrow> \<not> matchedSlash st \<Longrightarrow>
   CHR ''/'' \<notin> set cs \<Longrightarrow> t = [] \<or> hd t = CHR ''/'' \<Longrightarrow>
   extname_loop (cs @ t) st =
     st\<lparr>preDotState := (if cs = [] then preDotState st
                         else if last cs = CHR ''.'' then 1 else - 1),
        startPart := (if t = [] then startPart st else int (length t))\<rparr>"
proof (induction cs arbitrary: st)
  case Nil
  then show ?case by (simp add: scan_stop)
next
  case (Cons c cs)
  let ?st2 = "st\<lparr>preDotState := (if c = CHR ''.'' then 1 else - 1)\<rparr>"
  from Cons.prems have c: "c \<noteq> CHR ''/''" by auto
  have step: "extname_loop ((c # cs) @ t) st = extname_loop (cs @ t) ?st2"
    using Cons.prems(1) by (simp add: extname_loop_char [OF c Cons.prems(2)] del: extname_loop.simps)
  have "extname_loop (cs @ t) ?st2 =
     ?st2\<lparr>preDotState := (if cs = [] then preDotState ?st2
                         else if last cs = CHR ''.'' then 1 else - 1),
        startPart := (if t = [] then startPart ?st2 else int (length t))\<rparr>"
    using Cons.prems by (intro Cons.IH) simp_all
  then show ?case unfolding step by simp
qed

lemma extname_component:
  "extname path = component_extension (last_component path)"
proof -
  define r where "r = rev path"
  define z where "z = takeWhile (\<lambda>c. c = CHR ''/'') r"
  define q where "q = dropWhile (\<lambda>c. c = CHR ''/'') r"
  define cb where "cb = takeWhile (\<lambda>c. c \<noteq> CHR ''/'') q"
  define t where "t = dropWhile (\<lambda>c. c \<noteq> CHR ''/'') q"
  have r: "r = z @ cb @ t" by (simp add: z_def q_def cb_def t_def)
  have "rev r = rev t @ rev cb @ rev z" by (simp add: r)
  then have path: "path = rev t @ rev cb @ rev z" by (simp add: r_def)
  have z: "\<forall>c\<in>set z. c = CHR ''/''" unfolding z_def by (auto dest: set_takeWhileD)
  have cb: "CHR ''/'' \<notin> set cb" unfolding cb_def by (auto dest: set_takeWhileD)
  have t: "t = [] \<or> hd t = CHR ''/''"
    unfolding t_def using hd_dropWhile [of "\<lambda>c. c \<noteq> CHR ''/''" q] by auto
  have q: "q = cb @ t" by (simp add: cb_def t_def)
  have qhd: "q = [] \<or> hd q \<noteq> CHR ''/''"
    unfolding q_def using hd_dropWhile [of "\<lambda>c. c = CHR ''/''" r] by auto
  have lc: "last_component path = rev cb"
    by (simp add: last_component_def cb_def q_def r_def)
  have run: "extname_loop (rev path) ext_init = extname_loop (cb @ t) ext_init"
    using skip_slashes [OF z, of ext_init "cb @ t"] r by (simp add: r_def ext_init_def)
  show ?thesis
  proof (cases "cb = []")
    case True
    with q qhd t have "t = []" by auto
    with True run have "extname_loop (rev path) ext_init = ext_init" by simp
    then show ?thesis
      by (simp add: extname_def lc True component_extension_def ext_init_def)
  next
    case False
    define st0 where "st0 = ext_init\<lparr>matchedSlash := False, endIdx := int (length (cb @ t))\<rparr>"
    from False obtain c cs where ccs: "cb = c # cs" by (cases cb) auto
    with cb have cne: "c \<noteq> CHR ''/''" by auto
    have e0: "endIdx ext_init = - 1" by (simp add: ext_init_def)
    have len0: "int (length (cb @ t)) = int (length (cs @ t)) + 1" by (simp add: ccs)
    have run0: "extname_loop (cb @ t) ext_init = extname_loop (cb @ t) st0"
      unfolding st0_def len0 unfolding ccs append_Cons by (rule first_character [OF cne e0])
    define a where "a = takeWhile (\<lambda>c. c \<noteq> CHR ''.'') cb"
    define rest where "rest = dropWhile (\<lambda>c. c \<noteq> CHR ''.'') cb"
    have ab: "cb = a @ rest" by (simp add: a_def rest_def)
    have a: "CHR ''.'' \<notin> set a" "CHR ''/'' \<notin> set a"
      using cb unfolding a_def by (auto dest: set_takeWhileD)
    have st0: "startDot st0 = - 1" "endIdx st0 \<noteq> - 1" "\<not> matchedSlash st0"
      "startPart st0 = 0" "preDotState st0 = 0"
      by (simp_all add: st0_def ext_init_def)
    have runA: "extname_loop (cb @ t) st0 = extname_loop (rest @ t) st0"
      using scan_before_dot [OF st0(1,2) a(2,1), of "rest @ t"] by (simp add: ab)
    have e: "rev (takeWhile (\<lambda>c. c \<noteq> CHR ''.'') (rev (rev cb))) = rev a"
      by (simp add: a_def)
    show ?thesis
    proof (cases rest)
      case Nil
      with ab a have nodot: "CHR ''.'' \<notin> set cb" by simp
      from Nil runA scan_stop [OF st0(3) t]
      have "startDot (extname_loop (cb @ t) st0) = - 1" by (simp add: st0)
      then show ?thesis
        using nodot by (simp add: extname_def run run0 lc component_extension_def)
    next
      case (Cons d rs)
      have "rest = [] \<or> hd rest = CHR ''.''"
        unfolding rest_def using hd_dropWhile [of "\<lambda>c. c \<noteq> CHR ''.''" cb] by auto
      with Cons have d: "d = CHR ''.''" by simp
      have rs: "CHR ''/'' \<notin> set rs" using cb ab Cons by auto
      define st1 where "st1 = st0\<lparr>startDot := int (length (rs @ t))\<rparr>"
      have st1: "startDot st1 \<noteq> - 1" "endIdx st1 \<noteq> - 1" "\<not> matchedSlash st1"
        by (simp_all add: st1_def st0)
      have dn: "d \<noteq> CHR ''/''" by (simp add: d)
      have "extname_loop (rest @ t) st0 = extname_loop (rs @ t) st1"
        using extname_loop_char [OF dn st0(2), of "rs @ t"]
        by (simp add: Cons d st0 st1_def del: extname_loop.simps)
      also note scan_after_dot [OF st1 rs t]
      finally have fin: "extname_loop (rev path) ext_init =
          st1\<lparr>preDotState := (if rs = [] then preDotState st1
                               else if last rs = CHR ''.'' then 1 else - 1),
              startPart := (if t = [] then startPart st1 else int (length t))\<rparr>"
        by (simp add: run run0 runA)
      have sp: "(if t = [] then startPart st1 else int (length t)) = int (length t)"
        by (simp add: st1_def st0)
      have dotin: "CHR ''.'' \<in> set cb" by (simp add: ab Cons d)
      have len: "length cb = length a + Suc (length rs)" by (simp add: ab Cons)
      have sl: "slice path (length rs + length t) (length cb + length t) = CHR ''.'' # rev a"
        by (simp add: slice_def path ab Cons d)
      have dd: "cb = ''..'' \<longleftrightarrow> a = [] \<and> rs = ''.''"
        using a(1) by (cases a) (auto simp: ab Cons d)
      have one: "rs \<noteq> [] \<Longrightarrow> last rs = CHR ''.'' \<Longrightarrow> length rs = 1 \<Longrightarrow> rs = ''.''"
        by (cases rs) auto
      define F where "F = extname_loop (rev path) ext_init"
      have F: "startDot F = int (length rs + length t)"
          "endIdx F = int (length cb + length t)"
          "preDotState F = (if rs = [] then 0 else if last rs = CHR ''.'' then 1 else - 1)"
          "startPart F = int (length t)"
        unfolding F_def fin by (simp_all add: sp st1_def st0_def ext_init_def)
      have ex: "extname path =
          (if preDotState F = 0 \<or>
              (preDotState F = 1 \<and> startDot F = endIdx F - 1 \<and> startDot F = startPart F + 1)
           then [] else CHR ''.'' # rev a)"
        unfolding extname_def F_def [symmetric] Let_def
        using sl by (simp add: F(1,2) del: of_nat_add)
      have ce: "component_extension (rev cb) =
          (if rs = [] \<or> cb = ''..'' then [] else CHR ''.'' # rev a)"
        unfolding component_extension_def e Let_def using dotin len by auto
      have dots2: "(preDotState F = 1 \<and> startDot F = endIdx F - 1 \<and> startDot F = startPart F + 1)
          \<longleftrightarrow> cb = ''..''"
      proof
        assume h: "preDotState F = 1 \<and> startDot F = endIdx F - 1 \<and> startDot F = startPart F + 1"
        then have "rs \<noteq> []" "last rs = CHR ''.''" by (auto simp: F(3) split: if_splits)
        moreover from h have "length rs = 1" "a = []" by (auto simp: F len)
        ultimately show "cb = ''..''" using one dd by simp
      next
        assume "cb = ''..''"
        with dd have "a = []" "rs = ''.''" by simp_all
        then show "preDotState F = 1 \<and> startDot F = endIdx F - 1 \<and> startDot F = startPart F + 1"
          by (simp add: F len)
      qed
      have zero: "preDotState F = 0 \<longleftrightarrow> rs = []" by (simp add: F(3))
      show ?thesis unfolding lc ex ce dots2 zero by simp
    qed
  qed
qed

lemma extname_shape: "extname path = [] \<or> hd (extname path) = CHR ''.''"
  by (simp add: extname_component component_extension_def Let_def)

lemma toLowerCase_char_low:
  assumes "(of_char d :: nat) < 65"
  shows "toLowerCase_char c = d \<longleftrightarrow> c = d"
proof
  assume h: "toLowerCase_char c = d"
  show "c = d"
  proof (rule ccontr)
    assume n: "c \<noteq> d"
    let ?n = "of_char c :: nat"
    from h n have up: "(65 \<le> ?n \<and> ?n \<le> 90) \<or> (192 \<le> ?n \<and> ?n \<le> 222 \<and> ?n \<noteq> 215)"
      and d: "d = char_of (?n + 32)"
      by (auto simp: toLowerCase_char_def Let_def split: if_splits)
    from d have "(of_char d :: nat) = (?n + 32) mod 256" by simp
    with up have "(of_char d :: nat) = ?n + 32" by auto
    with up assms show False by auto
  qed
next
  assume "c = d"
  with assms show "toLowerCase_char c = d" by (simp add: toLowerCase_char_def)
qed

lemma toLowerCase_char_dot [simp]: "toLowerCase_char c = CHR ''.'' \<longleftrightarrow> c = CHR ''.''"
  by (rule toLowerCase_char_low) simp

lemma toLowerCase_char_slash [simp]: "toLowerCase_char c = CHR ''/'' \<longleftrightarrow> c = CHR ''/''"
  by (rule toLowerCase_char_low) simp

lemma toLowerCase_char_dot' [simp]: "CHR ''.'' = toLowerCase_char c \<longleftrightarrow> c = CHR ''.''"
  using toLowerCase_char_dot [of c] by (simp only: eq_commute)

lemma toLowerCase_char_slash' [simp]: "CHR ''/'' = toLowerCase_char c \<longleftrightarrow> c = CHR ''/''"
  using toLowerCase_char_slash [of c] by (simp only: eq_commute)

lemma takeWhile_upto: "c \<notin> set xs \<Longrightarrow> takeWhile (\<lambda>x. x \<noteq> c) (xs @ c # ys) = xs"
  by (induction xs) auto

lemma takeWhile_all: "c \<notin> set xs \<Longrightarrow> takeWhile (\<lambda>x. x \<noteq> c) xs = xs"
  by (induction xs) auto

lemma toLowerCase_dot_free:
  "CHR ''.'' \<in> set (toLowerCase s) \<longleftrightarrow> CHR ''.'' \<in> set s"
  "CHR ''/'' \<in> set (toLowerCase s) \<longleftrightarrow> CHR ''/'' \<in> set s"
  by (induction s) (auto simp: toLowerCase_def)

lemma toLowerCase_extension:
  assumes "toLowerCase E' = CHR ''.'' # e" and "CHR ''.'' \<notin> set e" and "CHR ''/'' \<notin> set e"
  shows "\<exists>e'. E' = CHR ''.'' # e' \<and> length e' = length e \<and>
              CHR ''.'' \<notin> set e' \<and> CHR ''/'' \<notin> set e'"
proof -
  from assms(1) obtain c e' where E': "E' = c # e'" "toLowerCase_char c = CHR ''.''"
    "toLowerCase e' = e"
    by (cases E') (auto simp: toLowerCase_def)
  then have "c = CHR ''.''" by simp
  moreover from E'(3) have "length e' = length e" by (auto simp: toLowerCase_def)
  moreover from E'(3) assms(2,3) have "CHR ''.'' \<notin> set e'" "CHR ''/'' \<notin> set e'"
    using toLowerCase_dot_free [of e'] by auto
  ultimately show ?thesis using E'(1) by simp
qed

lemma mimeTypes_entry:
  assumes "(E, t) \<in> set mimeTypes_entries"
  shows "mimeTypes E = Some t"
    and "\<exists>e. E = CHR ''.'' # e \<and> e \<noteq> [] \<and> CHR ''.'' \<notin> set e \<and> CHR ''/'' \<notin> set e"
proof -
  have "distinct (map fst mimeTypes_entries)" by (simp add: mimeTypes_entries_def)
  with assms show "mimeTypes E = Some t" unfolding mimeTypes_def by (rule map_of_is_SomeI [rotated -1])
  from assms show "\<exists>e. E = CHR ''.'' # e \<and> e \<noteq> [] \<and> CHR ''.'' \<notin> set e \<and> CHR ''/'' \<notin> set e"
    by (auto simp: mimeTypes_entries_def)
qed

lemma component_extension_stem:
  assumes "stem \<noteq> []" and "CHR ''.'' \<notin> set e" and "e \<noteq> []"
  shows "component_extension (stem @ CHR ''.'' # e) = CHR ''.'' # e"
proof -
  have "takeWhile (\<lambda>c. c \<noteq> CHR ''.'') (rev e @ CHR ''.'' # rev stem) = rev e"
    using assms(2) by (simp add: takeWhile_upto)
  moreover have "stem @ CHR ''.'' # e \<noteq> ''..''"
    using assms(1,3) by (cases stem; cases e) auto
  ultimately show ?thesis using assms(1) by (simp add: component_extension_def)
qed

lemma last_component_append:
  assumes "base \<noteq> []" and "CHR ''/'' \<notin> set base" and "pre = [] \<or> last pre = CHR ''/''"
  shows "last_component (pre @ base) = base"
proof -
  from assms(1,2) have "hd (rev base) \<noteq> CHR ''/''"
    by (metis hd_rev last_in_set)
  with assms(1) have d: "dropWhile (\<lambda>c. c = CHR ''/'') (rev base @ rev pre) = rev base @ rev pre"
    by (cases "rev base") auto
  have "rev pre = [] \<or> hd (rev pre) = CHR ''/''" using assms(3) by (auto simp: hd_rev)
  then have t: "takeWhile (\<lambda>c. c \<noteq> CHR ''/'') (rev base @ rev pre) = rev base"
    using assms(2) by (cases "rev pre") (simp_all add: takeWhile_upto takeWhile_all)
  show ?thesis by (simp add: last_component_def d t)
qed

lemma normalizeString_last_segment:
  assumes "plain_segment base"
  shows "\<exists>pre. normalizeString (x @ ''/'' @ base) a = pre @ base \<and>
               (pre = [] \<or> last pre = CHR ''/'')"
proof -
  let ?st = "normalizeString_loop a (x @ ''/'') norm_init"
  from assms have b: "base \<noteq> []" "CHR ''/'' \<notin> set base" by (simp_all add: plain_segment_def)
  then have "last base \<noteq> CHR ''/''" by (metis last_in_set)
  with b have l: "last (x @ ''/'' @ base) \<noteq> CHR ''/''" by simp
  have s: "seg ?st = []" "dots ?st = 0" using after_slash [of a x norm_init] by simp_all
  have "(x @ ''/'' @ base) @ ''/'' = (x @ ''/'') @ (base @ ''/'')" by simp
  then have "normalizeString (x @ ''/'' @ base) a = res (normalizeString_loop a (base @ ''/'') ?st)"
    unfolding normalizeString_def using l by (simp only: normalizeString_loop_append if_False simp_thms)
  also have "\<dots> = (if res ?st \<noteq> [] then res ?st @ ''/'' @ base else base)"
    unfolding push_segment [OF assms s] by simp
  finally show ?thesis by (cases "res ?st = []") auto
qed

lemma normalize_last_segment:
  assumes "plain_segment base"
  shows "\<exists>pre. normalize (x @ ''/'' @ base) = pre @ base \<and> (pre = [] \<or> last pre = CHR ''/'')"
proof -
  let ?path = "x @ ''/'' @ base"
  from assms have b: "base \<noteq> []" "CHR ''/'' \<notin> set base" by (simp_all add: plain_segment_def)
  then have "last base \<noteq> CHR ''/''" by (metis last_in_set)
  with b have l: "last ?path \<noteq> CHR ''/''" by simp
  have ne: "?path \<noteq> []" by simp
  from normalizeString_last_segment [OF assms, of x "hd ?path \<noteq> CHR ''/''"]
  obtain pre where pre: "normalizeString ?path (hd ?path \<noteq> CHR ''/'') = pre @ base"
    "pre = [] \<or> last pre = CHR ''/''" by blast
  have "normalize ?path = (if hd ?path = CHR ''/'' then CHR ''/'' # pre @ base else pre @ base)"
    unfolding normalize_def Let_def pre(1) using l ne b(1) by simp
  then show ?thesis
    using pre(2) by (cases "hd ?path = CHR ''/''") (force intro: exI [of _ "CHR ''/'' # pre"])+
qed

lemma extname_last_segment:
  assumes "stem \<noteq> []" and "CHR ''/'' \<notin> set stem" and "CHR ''.'' \<notin> set e" and "e \<noteq> []"
    and "CHR ''/'' \<notin> set e"
  shows "extname (join [STATIC_DIR, dir @ ''/'' @ stem @ CHR ''.'' # e]) = CHR ''.'' # e"
proof -
  let ?base = "stem @ CHR ''.'' # e"
  have pb: "plain_segment ?base"
    using assms by (cases stem; cases e) (auto simp: plain_segment_def)
  have "\<exists>x. join [STATIC_DIR, dir @ ''/'' @ ?base] = normalize (x @ ''/'' @ ?base)"
  proof (cases "STATIC_DIR = []")
    case True
    then show ?thesis by (auto simp: join_def intro: exI [of _ dir])
  next
    case False
    then show ?thesis by (auto simp: join_def intro: exI [of _ "STATIC_DIR @ ''/'' @ dir"])
  qed
  then obtain x where "join [STATIC_DIR, dir @ ''/'' @ ?base] = normalize (x @ ''/'' @ ?base)" ..
  with normalize_last_segment [OF pb, of x] obtain pre where
    pre: "join [STATIC_DIR, dir @ ''/'' @ ?base] = pre @ ?base" "pre = [] \<or> last pre = CHR ''/''"
    by auto
  have b: "?base \<noteq> []" "CHR ''/'' \<notin> set ?base" using assms by auto
  show ?thesis
    unfolding pre(1) extname_component last_component_append [OF b pre(2)]
    by (rule component_extension_stem [OF assms(1,3,4)])
qed

section \<open>The handler's three answers\<close>

lemma handler_Content:
  "fs (filePath STATIC_DIR url) = Content bytes \<Longrightarrow>
   handler STATIC_DIR url fs =
     ([WriteHead 200 [(''Content-Type'', contentType (filePath STATIC_DIR url))], End bytes], fs)"
  by (simp add: handler_def readFile_def)

lemma handler_Failed:
  "fs (filePath STATIC_DIR url) = Failed code \<Longrightarrow>
   handler STATIC_DIR url fs =
     (if code = ''ENOENT''
      then ([WriteHead 404 [], End ''File not found''], fs)
      else ([WriteHead 500 [], End ''Server error''], fs))"
  by (simp add: handler_def readFile_def)

lemma demo_index_path: "filePath ''/srv/www'' ''/index.html'' = ''/srv/www/index.html''"
  by code_simp

lemma demo_index_type: "contentType ''/srv/www/index.html'' = ''text/html''"
  by code_simp

lemma demo_missing_path: "filePath ''/srv/www'' ''/missing.html'' = ''/srv/www/missing.html''"
  by code_simp

lemma demo_secret_path: "filePath ''/srv/www'' ''/secret.txt'' = ''/srv/www/secret.txt''"
  by code_simp

text \<open>
  Claim C1. When the read of the resolved path succeeds, the handler writes one head
  with status 200 and the single header \<open>Content-Type\<close>, whose value is the type
  resolved from the path, and ends the response with the bytes read, unchanged.
\<close>

theorem success_response:
  assumes "fs (filePath STATIC_DIR url) = Content bytes"
  shows "fst (handler STATIC_DIR url fs) =
           [WriteHead 200 [(''Content-Type'', contentType (filePath STATIC_DIR url))], End bytes]
         \<and> respond STATIC_DIR url fs =
           Some \<lparr>status = 200,
                 headers = [(''Content-Type'', contentType (filePath STATIC_DIR url))],
                 body = bytes\<rparr>"
  using assms by (simp add: respond_def handler_Content)

theorem success_response_witness:
  "demo_disk (filePath ''/srv/www'' ''/index.html'') = Content ''<h1>Hi</h1>''
   \<and> respond ''/srv/www'' ''/index.html'' demo_disk =
       Some \<lparr>status = 200, headers = [(''Content-Type'', ''text/html'')], body = ''<h1>Hi</h1>''\<rparr>"
proof -
  have h: "demo_disk (filePath ''/srv/www'' ''/index.html'') = Content ''<h1>Hi</h1>''"
    by (simp add: demo_index_path demo_disk_def)
  from success_response [of demo_disk "''/srv/www''" "''/index.html''" "''<h1>Hi</h1>''"] h
  show ?thesis by (simp add: demo_index_path demo_index_type)
qed

lemma demo_nested_path: "filePath ''/srv/www'' ''/index.html/x'' = ''/srv/www/index.html/x''"
  by code_simp

lemma demo_nested_read: "posix_read demo_entries ''/srv/www/index.html/x'' = Failed ''ENOTDIR''"
  by code_simp

lemma demo_nested_absent: "demo_entries ''/srv/www/index.html/x'' = None"
  by (simp add: demo_entries_def)

text \<open>
  Claim C2, as worded. An absent resource is not always answered 404: on the disk
  \<open>demo_entries\<close> nothing is named \<open>/srv/www/index.html/x\<close>, the read fails with
  \<open>ENOTDIR\<close> because \<open>index.html\<close> is a regular file, and the answer is 500.
\<close>

theorem absent_resource_counterexample:
  "demo_entries (filePath ''/srv/www'' ''/index.html/x'') = None
   \<and> posix_read demo_entries (filePath ''/srv/www'' ''/index.html/x'') = Failed ''ENOTDIR''
   \<and> respond ''/srv/www'' ''/index.html/x'' (posix_read demo_entries) =
       Some \<lparr>status = 500, headers = [], body = ''Server error''\<rparr>"
proof -
  have h: "posix_read demo_entries (filePath ''/srv/www'' ''/index.html/x'') = Failed ''ENOTDIR''"
    by (simp add: demo_nested_path demo_nested_read)
  then have "respond ''/srv/www'' ''/index.html/x'' (posix_read demo_entries) =
       Some \<lparr>status = 500, headers = [], body = ''Server error''\<rparr>"
    by (simp add: respond_def handler_Failed)
  with h show ?thesis by (simp add: demo_nested_path demo_nested_absent)
qed

text \<open>
  Claim C2, amended. The response has status 404 exactly when the read of the
  resolved path fails with the code \<open>ENOENT\<close>; it then carries no header and the
  non-empty text \<open>File not found\<close>.
\<close>

theorem not_found_response:
  "\<exists>r. respond STATIC_DIR url fs = Some r
       \<and> (status r = 404 \<longleftrightarrow> fs (filePath STATIC_DIR url) = Failed ''ENOENT'')
       \<and> (status r = 404 \<longrightarrow> headers r = [] \<and> body r = ''File not found'' \<and> body r \<noteq> [])"
proof (cases "fs (filePath STATIC_DIR url)")
  case (Failed code)
  then show ?thesis by (simp add: respond_def handler_Failed)
next
  case (Content bytes)
  then show ?thesis by (simp add: respond_def handler_Content)
qed

theorem not_found_response_witness:
  "demo_disk (filePath ''/srv/www'' ''/missing.html'') = Failed ''ENOENT''
   \<and> (\<exists>r. respond ''/srv/www'' ''/missing.html'' demo_disk = Some r
          \<and> status r = 404 \<and> body r = ''File not found'')"
proof -
  have h: "demo_disk (filePath ''/srv/www'' ''/missing.html'') = Failed ''ENOENT''"
    by (simp add: demo_missing_path demo_disk_def)
  from not_found_response [of "''/srv/www''" "''/missing.html''" demo_disk] h
  show ?thesis by auto
qed

text \<open>
  Claim C3. When the read of the resolved path fails with any code other than
  \<open>ENOENT\<close>, the response has status 500, no header and the non-empty text
  \<open>Server error\<close>.
\<close>

theorem server_error_response:
  assumes "fs (filePath STATIC_DIR url) = Failed code" and "code \<noteq> ''ENOENT''"
  shows "respond STATIC_DIR url fs =
           Some \<lparr>status = 500, headers = [], body = ''Server error''\<rparr>
         \<and> ''Server error'' \<noteq> []"
  using assms by (simp add: respond_def handler_Failed)

theorem server_error_response_witness:
  "demo_disk (filePath ''/srv/www'' ''/secret.txt'') = Failed ''EACCES''
   \<and> ''EACCES'' \<noteq> ''ENOENT''
   \<and> respond ''/srv/www'' ''/secret.txt'' demo_disk =
       Some \<lparr>status = 500, headers = [], body = ''Server error''\<rparr>"
proof -
  have h: "demo_disk (filePath ''/srv/www'' ''/secret.txt'') = Failed ''EACCES''"
    by (simp add: demo_secret_path demo_disk_def)
  have n: "''EACCES'' \<noteq> ''ENOENT''" by simp
  from server_error_response [of demo_disk "''/srv/www''" "''/secret.txt''" "''EACCES''"] h n
  show ?thesis by simp
qed

text \<open>
  Claim C6. The request \<open>/\<close> is resolved to the path of \<open>/index.html\<close>, so on any
  disk the handler does for \<open>/\<close> exactly what it does for \<open>/index.html\<close>.
\<close>

theorem root_is_index:
  "filePath STATIC_DIR ''/'' = filePath STATIC_DIR ''/index.html''
   \<and> handler STATIC_DIR ''/'' fs = handler STATIC_DIR ''/index.html'' fs
   \<and> respond STATIC_DIR ''/'' fs = respond STATIC_DIR ''/index.html'' fs"
  by (simp add: filePath_def handler_def respond_def)

text \<open>
  Claim C7. For every request and every outcome of the read the handler writes
  exactly one head and ends the response exactly once, and the status is 200, 404
  or 500.
\<close>

theorem handler_total:
  "\<exists>s hs b. fst (handler STATIC_DIR url fs) = [WriteHead s hs, End b]
            \<and> respond STATIC_DIR url fs = Some \<lparr>status = s, headers = hs, body = b\<rparr>
            \<and> (s = 200 \<or> s = 404 \<or> s = 500)"
proof (cases "fs (filePath STATIC_DIR url)")
  case (Failed code)
  then show ?thesis by (simp add: respond_def handler_Failed)
next
  case (Content bytes)
  then show ?thesis by (simp add: respond_def handler_Content)
qed

section \<open>The effects of a request\<close>

lemma handler_calls_handler:
  "handler_calls STATIC_DIR url fs =
     Fs_readFile (filePath STATIC_DIR url) # map Res (fst (handler STATIC_DIR url fs))"
  by (cases "fs (filePath STATIC_DIR url)")
     (simp_all add: handler_calls_def Let_def handler_Failed handler_Content readFile_def)

lemma run_reads_or_responds:
  "list_all reads_or_responds calls \<Longrightarrow>
   disk (run calls w) = disk w \<and> requests_sent (run calls w) = requests_sent w"
proof (induction calls arbitrary: w)
  case Nil
  then show ?case by (simp add: run_def)
next
  case (Cons c calls)
  then have c: "reads_or_responds c" and r: "list_all reads_or_responds calls" by simp_all
  from c have "disk (perform w c) = disk w \<and> requests_sent (perform w c) = requests_sent w"
    by (cases c) (simp_all add: readFile_def)
  with Cons.IH [OF r, of "perform w c"] show ?case by (simp add: run_def)
qed

lemma run_res_calls:
  "res_calls (run (Fs_readFile p # map Res cs) w) = res_calls w @ cs"
proof -
  have "res_calls (foldl perform v (map Res cs)) = res_calls v @ cs" for v
    by (induction cs arbitrary: v) simp_all
  then show ?thesis by (simp add: run_def)
qed

lemma write_changes_disk:
  "disk (run [Fs_writeFile p bytes] w) p = Content bytes
   \<and> requests_sent (run [Http_request u] w) = requests_sent w @ [u]"
  by (simp add: run_def)

text \<open>
  Claim C9. The calls the handler makes are the read of the resolved path and two
  calls on the response object, nothing else: no call writes to the disk and none
  reaches another host. Carried out in any world, they leave the disk and the list
  of requests sent out as they were, and hand the response object exactly the calls
  of the handler.
\<close>

theorem handler_side_effects:
  "(\<exists>s hs b. handler_calls STATIC_DIR url (disk w) =
       [Fs_readFile (filePath STATIC_DIR url), Res (WriteHead s hs), Res (End b)])
   \<and> list_all reads_or_responds (handler_calls STATIC_DIR url (disk w))
   \<and> disk (run (handler_calls STATIC_DIR url (disk w)) w) = disk w
   \<and> requests_sent (run (handler_calls STATIC_DIR url (disk w)) w) = requests_sent w
   \<and> res_calls (run (handler_calls STATIC_DIR url (disk w)) w)
       = res_calls w @ fst (handler STATIC_DIR url (disk w))
   \<and> snd (handler STATIC_DIR url (disk w)) = disk w"
proof -
  let ?calls = "handler_calls STATIC_DIR url (disk w)"
  have shape: "\<exists>s hs b. ?calls =
       [Fs_readFile (filePath STATIC_DIR url), Res (WriteHead s hs), Res (End b)]"
    by (cases "disk w (filePath STATIC_DIR url)")
       (simp_all add: handler_calls_handler handler_Failed handler_Content)
  then have all: "list_all reads_or_responds ?calls" by auto
  note frame = run_reads_or_responds [OF all, of w]
  have sent: "res_calls (run ?calls w) = res_calls w @ fst (handler STATIC_DIR url (disk w))"
    unfolding handler_calls_handler by (rule run_res_calls)
  have same: "snd (handler STATIC_DIR url (disk w)) = disk w"
    by (cases "disk w (filePath STATIC_DIR url)") (simp_all add: handler_Failed handler_Content)
  from shape all frame sent same show ?thesis by blast
qed

section \<open>The type announced for a request\<close>

lemma filePath_not_root: "url \<noteq> ''/'' \<Longrightarrow> filePath STATIC_DIR url = join [STATIC_DIR, url]"
  by (simp add: filePath_def)

lemma demo_logo_path: "filePath ''/srv/www'' ''/LOGO.PNG'' = ''/srv/www/LOGO.PNG''"
  by code_simp

lemma demo_css_path: "filePath ''/srv/www'' ''/.css'' = ''/srv/www/.css''"
  by code_simp

lemma demo_css_type: "contentType ''/srv/www/.css'' = ''application/octet-stream''"
  by code_simp

lemma demo_css_read: "posix_read demo_entries ''/srv/www/.css'' = Content ''body{}''"
  by code_simp

lemma demo_css_spec_extension: "spec_extension ''/srv/www/.css'' = ''.css''"
  by code_simp

text \<open>
  Claim C4, as worded. The file \<open>/srv/www/.css\<close> ends with the table key \<open>.css\<close>,
  which is also the substring of its path from the last \<open>.\<close> on, and its read
  succeeds; it is announced as \<open>application/octet-stream\<close>, not as \<open>text/css\<close>.
\<close>

theorem mime_table_lookup_counterexample:
  "(''.css'', ''text/css'') \<in> set mimeTypes_entries
   \<and> spec_extension (filePath ''/srv/www'' ''/.css'') = ''.css''
   \<and> posix_read demo_entries (filePath ''/srv/www'' ''/.css'') = Content ''body{}''
   \<and> respond ''/srv/www'' ''/.css'' (posix_read demo_entries) =
       Some \<lparr>status = 200, headers = [(''Content-Type'', ''application/octet-stream'')],
             body = ''body{}''\<rparr>
   \<and> ''application/octet-stream'' \<noteq> ''text/css''"
proof -
  have a: "(''.css'', ''text/css'') \<in> set mimeTypes_entries" by (simp add: mimeTypes_entries_def)
  have h: "posix_read demo_entries (filePath ''/srv/www'' ''/.css'') = Content ''body{}''"
    by (simp add: demo_css_path demo_css_read)
  then have "respond ''/srv/www'' ''/.css'' (posix_read demo_entries) =
       Some \<lparr>status = 200, headers = [(''Content-Type'', ''application/octet-stream'')],
             body = ''body{}''\<rparr>"
    by (simp add: respond_def handler_Content demo_css_path demo_css_type)
  with a h show ?thesis by (simp add: demo_css_path demo_css_spec_extension)
qed

text \<open>
  Claim C4, amended. Take any entry of the table, with extension \<open>E\<close> and type
  \<open>t\<close>, and any spelling \<open>E'\<close> of \<open>E\<close> in upper or lower case. A request whose last
  segment is a non-empty stem followed by \<open>E'\<close> is announced, when its read
  succeeds, with the type \<open>t\<close>, whatever the root directory and the directories of
  the request.
\<close>

theorem mime_table_lookup:
  assumes "(E, t) \<in> set mimeTypes_entries" and "toLowerCase E' = E"
    and "stem \<noteq> []" and "CHR ''/'' \<notin> set stem"
    and "url = dir @ ''/'' @ stem @ E'"
    and "fs (filePath STATIC_DIR url) = Content bytes"
  shows "contentType (filePath STATIC_DIR url) = t
         \<and> respond STATIC_DIR url fs =
             Some \<lparr>status = 200, headers = [(''Content-Type'', t)], body = bytes\<rparr>"
proof -
  from mimeTypes_entry(2) [OF assms(1)] obtain e where
    e: "E = CHR ''.'' # e" "e \<noteq> []" "CHR ''.'' \<notin> set e" "CHR ''/'' \<notin> set e" by blast
  from toLowerCase_extension [of E' e] assms(2) e obtain e' where
    e': "E' = CHR ''.'' # e'" "length e' = length e" "CHR ''.'' \<notin> set e'" "CHR ''/'' \<notin> set e'"
    by auto
  from e'(2) e(2) have ne: "e' \<noteq> []" by auto
  have "url \<noteq> ''/''" using assms(3,5) by (auto simp: append_eq_Cons_conv)
  then have p: "filePath STATIC_DIR url = join [STATIC_DIR, dir @ ''/'' @ stem @ CHR ''.'' # e']"
    by (simp add: filePath_not_root assms(5) e'(1))
  have "extname (filePath STATIC_DIR url) = E'"
    unfolding p e'(1) by (rule extname_last_segment [OF assms(3,4) e'(3) ne e'(4)])
  then have ct: "contentType (filePath STATIC_DIR url) = t"
    by (simp add: contentType_def assms(2) mimeTypes_entry(1) [OF assms(1)])
  with assms(6) show ?thesis by (simp add: respond_def handler_Content)
qed

theorem mime_table_lookup_witness:
  "(''.png'', ''image/png'') \<in> set mimeTypes_entries
   \<and> toLowerCase ''.PNG'' = ''.png''
   \<and> demo_disk (filePath ''/srv/www'' ''/LOGO.PNG'') = Content ''PNG''
   \<and> respond ''/srv/www'' ''/LOGO.PNG'' demo_disk =
       Some \<lparr>status = 200, headers = [(''Content-Type'', ''image/png'')], body = ''PNG''\<rparr>"
proof -
  have a: "(''.png'', ''image/png'') \<in> set mimeTypes_entries" by (simp add: mimeTypes_entries_def)
  have b: "toLowerCase ''.PNG'' = ''.png''" by code_simp
  have c: "''LOGO'' \<noteq> []" "CHR ''/'' \<notin> set ''LOGO''" by simp_all
  have d: "''/LOGO.PNG'' = [] @ ''/'' @ ''LOGO'' @ ''.PNG''" by simp
  have h: "demo_disk (filePath ''/srv/www'' ''/LOGO.PNG'') = Content ''PNG''"
    by (simp add: demo_logo_path demo_disk_def)
  from mime_table_lookup [OF a b c d, of demo_disk "''/srv/www''" "''PNG''"] a b h
  show ?thesis by simp
qed

section \<open>Requests that leave the root\<close>

lemma split_slash_plain: "CHR ''/'' \<notin> set s \<Longrightarrow> split_slash s = [s]"
  by (induction s) auto

lemma walk_parent_name:
  "plain_segment name \<Longrightarrow> walk segs [''..'', name] = butlast segs @ [name]"
  by (auto simp: walk_def walk_step_def plain_segment_def)

lemma join_parent_name:
  assumes "\<forall>s\<in>set segs. plain_segment s" and "plain_segment name"
  shows "join [directory_path segs, ''/../'' @ name] = segments_path (butlast segs @ [name])"
proof -
  have items: "[''..'', name] \<noteq> []" "\<forall>it\<in>set [''..'', name]. CHR ''/'' \<notin> set it"
    using assms(2) by (simp_all add: plain_segment_def)
  have ne: "name \<noteq> []" using assms(2) by (simp add: plain_segment_def)
  have "''/../'' @ name = segments_path [''..'', name]" by simp
  then show ?thesis
    using join_directory [OF assms(1) items] ne
    by (simp add: walk_parent_name [OF assms(2)] del: segments_path_simps)
qed

lemma sibling_outside:
  assumes "segs \<noteq> []" and "CHR ''/'' \<notin> set name" and "name \<noteq> last segs"
  shows "\<not> inside_directory (directory_path segs) (segments_path (butlast segs @ [name]))"
proof
  let ?b = "segments_path (butlast segs)"
  assume i: "inside_directory (directory_path segs) (segments_path (butlast segs @ [name]))"
  from assms(1) have s: "segs = butlast segs @ [last segs]" by simp
  have "segments_path (butlast segs @ [last segs]) = ?b @ CHR ''/'' # last segs" by simp
  with s have root: "directory_path segs = ?b @ CHR ''/'' # last segs"
    using assms(1) by (simp add: directory_path_def)
  have p: "segments_path (butlast segs @ [name]) = ?b @ CHR ''/'' # name" by simp
  from i consider "?b @ CHR ''/'' # name = ?b @ CHR ''/'' # last segs"
    | "take (Suc (length (?b @ CHR ''/'' # last segs))) (?b @ CHR ''/'' # name)
         = (?b @ CHR ''/'' # last segs) @ ''/''"
    unfolding inside_directory_def root p by blast
  then show False
  proof cases
    case 1
    with assms(3) show False by simp
  next
    case 2
    have "?b @ CHR ''/'' # name =
          take (Suc (length (?b @ CHR ''/'' # last segs))) (?b @ CHR ''/'' # name)
          @ drop (Suc (length (?b @ CHR ''/'' # last segs))) (?b @ CHR ''/'' # name)"
      by (simp only: append_take_drop_id)
    with 2 obtain rest where "?b @ CHR ''/'' # name = (?b @ CHR ''/'' # last segs) @ ''/'' @ rest"
      by (metis append_assoc)
    then have "name = last segs @ ''/'' @ rest" by simp
    with assms(2) show False by simp
  qed
qed

text \<open>
  Claim C8. Let the root be a directory below the filesystem root, given by the
  names that lead to it. Every request other than \<open>/\<close> is resolved by \<open>path.join\<close>
  alone; the request \<open>/../name\<close> is resolved to the entry \<open>name\<close> of the root's
  parent, which lies outside the root for every \<open>name\<close> other than the root's own;
  so some request with a \<open>..\<close> segment is resolved outside the root.
\<close>

theorem directory_escape:
  assumes "segs \<noteq> []" and "\<forall>s\<in>set segs. plain_segment s"
  shows "(\<forall>url. url \<noteq> ''/'' \<longrightarrow>
            filePath (directory_path segs) url = join [directory_path segs, url])
         \<and> (\<forall>name. plain_segment name \<and> name \<noteq> last segs \<longrightarrow>
               ''..'' \<in> set (split_slash (''/../'' @ name))
             \<and> filePath (directory_path segs) (''/../'' @ name)
                 = directory_path (butlast segs @ [name])
             \<and> \<not> inside_directory (directory_path segs)
                   (filePath (directory_path segs) (''/../'' @ name)))
         \<and> (\<exists>url. ''..'' \<in> set (split_slash url)
               \<and> \<not> inside_directory (directory_path segs) (filePath (directory_path segs) url))"
proof -
  let ?root = "directory_path segs"
  have A: "\<forall>url. url \<noteq> ''/'' \<longrightarrow> filePath ?root url = join [?root, url]"
    by (simp add: filePath_not_root)
  have B: "''..'' \<in> set (split_slash (''/../'' @ name))
         \<and> filePath ?root (''/../'' @ name) = directory_path (butlast segs @ [name])
         \<and> \<not> inside_directory ?root (filePath ?root (''/../'' @ name))"
    if n: "plain_segment name" "name \<noteq> last segs" for name
  proof -
    from n(1) have ns: "CHR ''/'' \<notin> set name" by (simp add: plain_segment_def)
    have s: "''..'' \<in> set (split_slash (''/../'' @ name))"
      by (simp add: split_slash_plain [OF ns])
    have u: "''/../'' @ name \<noteq> ''/''" by simp
    have p: "filePath ?root (''/../'' @ name) = segments_path (butlast segs @ [name])"
      unfolding filePath_not_root [OF u] by (rule join_parent_name [OF assms(2) n(1)])
    show ?thesis
      using s sibling_outside [OF assms(1) ns n(2)]
      unfolding p by (simp add: directory_path_def)
  qed
  let ?n = "last segs @ ''x''"
  from assms have "plain_segment (last segs)" by simp
  then have "plain_segment ?n" "?n \<noteq> last segs"
    by (auto simp: plain_segment_def append_eq_Cons_conv)
  from B [OF this] have C: "\<exists>url. ''..'' \<in> set (split_slash url)
               \<and> \<not> inside_directory ?root (filePath ?root url)" by blast
  from A B C show ?thesis by blast
qed

lemma demo_private_path: "filePath ''/srv/www'' ''/../private.txt'' = ''/srv/private.txt''"
  by code_simp

lemma demo_private_type: "contentType ''/srv/private.txt'' = ''text/plain''"
  by code_simp

theorem directory_escape_witness:
  "[''srv'', ''www''] \<noteq> [] \<and> plain_segment ''srv'' \<and> plain_segment ''www''
   \<and> plain_segment ''private.txt'' \<and> ''private.txt'' \<noteq> last [''srv'', ''www'']
   \<and> ''..'' \<in> set (split_slash ''/../private.txt'')
   \<and> filePath ''/srv/www'' ''/../private.txt'' = ''/srv/private.txt''
   \<and> \<not> inside_directory ''/srv/www'' ''/srv/private.txt''
   \<and> respond ''/srv/www'' ''/../private.txt'' demo_disk =
       Some \<lparr>status = 200, headers = [(''Content-Type'', ''text/plain'')], body = ''secret''\<rparr>"
proof -
  have a: "[''srv'', ''www''] \<noteq> []" "\<forall>s\<in>set [''srv'', ''www'']. plain_segment s"
    by (simp_all add: plain_segment_def)
  have b: "plain_segment ''private.txt''" "''private.txt'' \<noteq> last [''srv'', ''www'']"
    by (simp_all add: plain_segment_def)
  have d: "directory_path [''srv'', ''www''] = ''/srv/www''" by (simp add: directory_path_def)
  have h: "demo_disk (filePath ''/srv/www'' ''/../private.txt'') = Content ''secret''"
    by (simp add: demo_private_path demo_disk_def)
  from directory_escape [OF a] b
  have "''..'' \<in> set (split_slash (''/../'' @ ''private.txt''))
      \<and> \<not> inside_directory (directory_path [''srv'', ''www''])
            (filePath (directory_path [''srv'', ''www'']) (''/../'' @ ''private.txt''))"
    by blast
  then have "''..'' \<in> set (split_slash ''/../private.txt'')
      \<and> \<not> inside_directory ''/srv/www'' ''/srv/private.txt''"
    unfolding d by (simp add: demo_private_path)
  moreover have "respond ''/srv/www'' ''/../private.txt'' demo_disk =
       Some \<lparr>status = 200, headers = [(''Content-Type'', ''text/plain'')], body = ''secret''\<rparr>"
    using h by (simp add: respond_def handler_Content demo_private_path demo_private_type)
  ultimately show ?thesis using a b by (simp add: demo_private_path)
qed

section \<open>The request URL is taken as it stands\<close>




section \<open>The extension and the fallback type\<close>

lemma demo_dot_path: "filePath ''/srv/www'' ''/.html'' = ''/srv/www/.html''"
  by code_simp

lemma demo_dot_extname: "extname ''/srv/www/.html'' = []"
  by code_simp

lemma demo_dot_spec_extension: "spec_extension ''/srv/www/.html'' = ''.html''"
  by code_simp

text \<open>
  Claim C5, as worded. The extension is not always the substring of the resolved
  path from its last \<open>.\<close>: for the file \<open>/srv/www/.html\<close> that substring is
  \<open>.html\<close>, a key of the table, while \<open>path.extname\<close> gives the empty string, and
  the file is served as \<open>application/octet-stream\<close>, not as \<open>text/html\<close>.
\<close>

theorem extension_rule_counterexample:
  "filePath ''/srv/www'' ''/.html'' = ''/srv/www/.html''
   \<and> demo_disk ''/srv/www/.html'' = Content ''<p>dot</p>''
   \<and> spec_extension ''/srv/www/.html'' = ''.html''
   \<and> toLowerCase (extname ''/srv/www/.html'') \<noteq> spec_extension ''/srv/www/.html''
   \<and> spec_contentType ''/srv/www/.html'' = ''text/html''
   \<and> contentType ''/srv/www/.html'' \<noteq> spec_contentType ''/srv/www/.html''
   \<and> respond ''/srv/www'' ''/.html'' demo_disk =
       Some \<lparr>status = 200, headers = [(''Content-Type'', ''application/octet-stream'')],
             body = ''<p>dot</p>''\<rparr>"
proof -
  have m: "mimeTypes [] = None" "mimeTypes ''.html'' = Some ''text/html''"
    by (simp_all add: mimeTypes_def mimeTypes_entries_def)
  have ct: "contentType ''/srv/www/.html'' = ''application/octet-stream''"
    by (simp add: contentType_def demo_dot_extname toLowerCase_def m)
  have sct: "spec_contentType ''/srv/www/.html'' = ''text/html''"
    by (simp add: spec_contentType_def demo_dot_spec_extension m)
  have h: "demo_disk (filePath ''/srv/www'' ''/.html'') = Content ''<p>dot</p>''"
    by (simp add: demo_dot_path demo_disk_def)
  then have r: "respond ''/srv/www'' ''/.html'' demo_disk =
       Some \<lparr>status = 200, headers = [(''Content-Type'', ''application/octet-stream'')],
             body = ''<p>dot</p>''\<rparr>"
    by (simp add: respond_def handler_Content demo_dot_path ct)
  show ?thesis
    using h r by (simp add: demo_dot_path demo_dot_extname demo_dot_spec_extension ct sct toLowerCase_def)
qed

lemma set_last_component: "set (last_component path) \<subseteq> set path"
proof -
  have "set (takeWhile (\<lambda>c. c \<noteq> CHR ''/'') (dropWhile (\<lambda>c. c = CHR ''/'') (rev path)))
          \<subseteq> set (rev path)"
  proof
    fix x
    assume "x \<in> set (takeWhile (\<lambda>c. c \<noteq> CHR ''/'') (dropWhile (\<lambda>c. c = CHR ''/'') (rev path)))"
    then have "x \<in> set (dropWhile (\<lambda>c. c = CHR ''/'') (rev path))"
      by (rule set_takeWhileD [THEN conjunct1])
    then show "x \<in> set (rev path)" by (rule set_dropWhileD)
  qed
  then show ?thesis by (simp add: last_component_def)
qed

lemma spec_extension_stem:
  assumes "CHR ''.'' \<notin> set e"
  shows "spec_extension (pre @ stem @ CHR ''.'' # e) = toLowerCase (CHR ''.'' # e)"
proof -
  have "takeWhile (\<lambda>c. c \<noteq> CHR ''.'') (rev e @ CHR ''.'' # rev stem @ rev pre) = rev e"
    using assms by (simp add: takeWhile_upto)
  then show ?thesis by (simp add: spec_extension_def)
qed

text \<open>
  Claim C5, amended. The extension is that of the last component of the resolved
  path (trailing separators apart): the component from its last \<open>.\<close> on, lower-cased,
  and nothing when the component has no \<open>.\<close>, when its only \<open>.\<close> is its first
  character, or when it is \<open>..\<close>. For a component with a non-empty stem before its
  last \<open>.\<close> and at least one character after it, this is the substring of the whole
  path from its last \<open>.\<close> to its end. When the extension is no key of the table,
  and in particular when the path has no \<open>.\<close> at all, the type resolved is
  \<open>application/octet-stream\<close>, and a successful response carries exactly it.
\<close>

theorem extension_fallback:
  "toLowerCase (extname path) = toLowerCase (component_extension (last_component path))
   \<and> (stem \<noteq> [] \<and> CHR ''/'' \<notin> set stem \<and> e \<noteq> [] \<and> CHR ''.'' \<notin> set e \<and> CHR ''/'' \<notin> set e
        \<and> (pre = [] \<or> last pre = CHR ''/'')
      \<longrightarrow> toLowerCase (extname (pre @ stem @ CHR ''.'' # e))
            = spec_extension (pre @ stem @ CHR ''.'' # e))
   \<and> (mimeTypes (toLowerCase (extname path)) = None
      \<longrightarrow> contentType path = ''application/octet-stream'')
   \<and> (CHR ''.'' \<notin> set path \<longrightarrow> contentType path = ''application/octet-stream'')
   \<and> (fs (filePath STATIC_DIR url) = Content bytes
        \<and> mimeTypes (toLowerCase (extname (filePath STATIC_DIR url))) = None
      \<longrightarrow> respond STATIC_DIR url fs =
            Some \<lparr>status = 200, headers = [(''Content-Type'', ''application/octet-stream'')],
                  body = bytes\<rparr>)"
proof -
  have A: "toLowerCase (extname path) = toLowerCase (component_extension (last_component path))"
    by (simp add: extname_component)
  have B: "toLowerCase (extname (pre @ stem @ CHR ''.'' # e))
            = spec_extension (pre @ stem @ CHR ''.'' # e)"
    if h: "stem \<noteq> []" "CHR ''/'' \<notin> set stem" "e \<noteq> []" "CHR ''.'' \<notin> set e" "CHR ''/'' \<notin> set e"
      "pre = [] \<or> last pre = CHR ''/''"
  proof -
    have b: "stem @ CHR ''.'' # e \<noteq> []" "CHR ''/'' \<notin> set (stem @ CHR ''.'' # e)"
      using h by auto
    have "extname (pre @ stem @ CHR ''.'' # e) = CHR ''.'' # e"
      unfolding extname_component last_component_append [OF b h(6)]
      by (rule component_extension_stem [OF h(1,4,3)])
    then show ?thesis by (simp add: spec_extension_stem [OF h(4)])
  qed
  have C: "contentType p = ''application/octet-stream''"
    if "mimeTypes (toLowerCase (extname p)) = None" for p
    using that by (simp add: contentType_def)
  have D: "contentType path = ''application/octet-stream''" if "CHR ''.'' \<notin> set path"
  proof -
    from that set_last_component [of path] have "CHR ''.'' \<notin> set (last_component path)" by auto
    then have "extname path = []" by (simp add: extname_component component_extension_def)
    then show ?thesis
      by (simp add: contentType_def toLowerCase_def mimeTypes_def mimeTypes_entries_def)
  qed
  have E: "respond STATIC_DIR url fs =
            Some \<lparr>status = 200, headers = [(''Content-Type'', ''application/octet-stream'')],
                  body = bytes\<rparr>"
    if "fs (filePath STATIC_DIR url) = Content bytes"
      "mimeTypes (toLowerCase (extname (filePath STATIC_DIR url))) = None"
    using that by (simp add: respond_def handler_Content C)
  from A B C D E show ?thesis by blast
qed

lemma demo_data_path: "filePath ''/srv/www'' ''/data.unknownext'' = ''/srv/www/data.unknownext''"
  by code_simp

lemma demo_data_extname: "extname ''/srv/www/data.unknownext'' = ''.unknownext''"
  by code_simp

lemma demo_data_lower: "toLowerCase ''.unknownext'' = ''.unknownext''"
  by code_simp

theorem extension_fallback_witness:
  "demo_disk (filePath ''/srv/www'' ''/data.unknownext'') = Content ''raw''
   \<and> mimeTypes (toLowerCase (extname (filePath ''/srv/www'' ''/data.unknownext''))) = None
   \<and> toLowerCase (extname ''/srv/www/data.unknownext'') = spec_extension ''/srv/www/data.unknownext''
   \<and> respond ''/srv/www'' ''/data.unknownext'' demo_disk =
       Some \<lparr>status = 200, headers = [(''Content-Type'', ''application/octet-stream'')],
             body = ''raw''\<rparr>"
proof -
  have h: "demo_disk (filePath ''/srv/www'' ''/data.unknownext'') = Content ''raw''"
    by (simp add: demo_data_path demo_disk_def)
  have m: "mimeTypes (toLowerCase (extname (filePath ''/srv/www'' ''/data.unknownext''))) = None"
    by (simp add: demo_data_path demo_data_extname demo_data_lower mimeTypes_def mimeTypes_entries_def)
  have s: "''data'' \<noteq> [] \<and> CHR ''/'' \<notin> set ''data'' \<and> ''unknownext'' \<noteq> []
      \<and> CHR ''.'' \<notin> set ''unknownext'' \<and> CHR ''/'' \<notin> set ''unknownext''
      \<and> (''/srv/www/'' = [] \<or> last ''/srv/www/'' = CHR ''/'')" by simp
  have p: "''/srv/www/data.unknownext'' = ''/srv/www/'' @ ''data'' @ CHR ''.'' # ''unknownext''"
    by simp
  from extension_fallback [of "''/srv/www/data.unknownext''" "''data''" "''unknownext''"
      "''/srv/www/''" demo_disk "''/srv/www''" "''/data.unknownext''" "''raw''"] h m s
  have "toLowerCase (extname (''/srv/www/'' @ ''data'' @ CHR ''.'' # ''unknownext''))
           = spec_extension (''/srv/www/'' @ ''data'' @ CHR ''.'' # ''unknownext'')
      \<and> respond ''/srv/www'' ''/data.unknownext'' demo_disk =
       Some \<lparr>status = 200, headers = [(''Content-Type'', ''application/octet-stream'')],
             body = ''raw''\<rparr>"
    by blast
  with h m show ?thesis by (simp only: p [symmetric])
qed

end
